theory Spec2Isabelle
  imports Main "HOL-Library.Word"
begin

unbundle bit_operations_syntax

section \<open>Intel Trace Hub Memory Storage Unit: data model\<close>

text \<open>
  The development follows \<^verbatim>\<open>drivers/hwtracing/intel_th/msu.c\<close>. Pointers to windows
  are positions in \<open>win_list\<close>, pointers to blocks are positions in a window's
  \<open>block\<close> array, and physical addresses are natural numbers.
\<close>

datatype errno = EPERM | ENOMEM | EBUSY | EINVAL | ENODEV | ENOTSUPP | EFAULT | ERANGE

text \<open>The operating modes, in the order of the \<open>msc_mode[]\<close> name table.\<close>

datatype msc_mode_t = MSC_MODE_SINGLE | MSC_MODE_MULTI | MSC_MODE_EXI | MSC_MODE_DEBUG

text \<open>The two software tag bits that \<open>msc_buffer_relink\<close> ors into \<open>sw_tag\<close>.\<close>

datatype sw_tag_bit = MSC_SW_TAG_LASTBLK | MSC_SW_TAG_LASTWIN

text \<open>
  The block descriptor at the start of every block: the linkage written by software and
  the two header words written by hardware that the driver reads. Every field is a
  32-bit word of the page; the fields are natural numbers here and a store into
  \<open>next_blk\<close> or \<open>next_win\<close> is written with its reduction modulo \<open>2 ^ 32\<close>.
\<close>

record msc_block_desc =
  sw_tag :: "sw_tag_bit set"
  block_sz :: nat
  next_blk :: nat
  next_win :: nat
  hw_tag :: nat
  valid_dw :: nat

text \<open>
  A block: its descriptor, its physical address, and \<open>payload\<close>, the bytes of the page
  that follow the descriptor (from byte \<open>MSC_BDESC\<close> on).
\<close>

record msc_block =
  bdesc :: msc_block_desc
  addr :: nat
  payload :: "8 word list"

record msc_window =
  pgoff :: nat
  nr_blocks :: nat
  block :: "msc_block list"

text \<open>
  The accessors of the hardware header and the two size macros are declared in
  \<^verbatim>\<open>msu.h\<close>, which is not among the sources. They are parameters of the model: a value
  of \<open>msu_h\<close> is passed to every function that calls one of them.
\<close>

record msu_h =
  msc_data_sz :: "msc_block_desc \<Rightarrow> nat"
  msc_block_wrapped :: "msc_block_desc \<Rightarrow> bool"
  msc_block_last_written :: "msc_block_desc \<Rightarrow> bool"
  DATA_IN_PAGE :: nat
  MSC_BDESC :: nat

text \<open>The page size of the kernel this driver is built for (x86).\<close>

definition PAGE_SHIFT :: nat where
  "PAGE_SHIFT = 12"

definition PAGE_SIZE :: nat where
  "PAGE_SIZE = 2 ^ PAGE_SHIFT"

text \<open>
  The two devices that the DMA calls name: \<open>msc_dev(msc)\<close>, the output device of the
  hub, and \<open>msc_dev(msc)->parent->parent\<close>, the device the hub hangs from.
\<close>

datatype device = DEV_MSC | DEV_HOST

text \<open>
  \<open>struct msc\<close>. The fields \<open>reg_nwsa\<close> and \<open>reg_mwp\<close> are what a read of
  the registers \<open>REG_MSU_MSC0NWSA\<close> and \<open>REG_MSU_MSC0MWP\<close> returns, and
  \<open>reg_wrapstat\<close> is the bit \<open>MSCSTS_WRAPSTAT\<close> of \<open>REG_MSU_MSC0STS\<close>; register
  writes go to the device and change nothing the driver reads back, so they are left out.
  \<open>base_mem\<close> is the content of the contiguous region that \<open>base\<close> points to in
  single mode; \<open>iter_list\<close> holds the identities of the installed
  iterators; \<open>dma_live\<close> is the set of the pages handed out by
  \<open>dma_alloc_coherent\<close> and by \<open>alloc_pages\<close> and not yet given back, each by its
  address; \<open>dma_dev\<close> is the device a page was handed out for; \<open>next_dma\<close> is the
  next address the allocator hands out and \<open>allocs\<close> scripts which of the coming
  allocations succeed (an exhausted script: all of them). \<open>dma_shared\<close> is a fact
  about the platform: the two devices share their DMA operations, so that a page handed
  out for one of them is given back by a \<open>dma_free_coherent\<close> that names the other.
\<close>

record msc =
  win_list :: "msc_window list"
  nr_pages :: nat
  single_sz :: nat
  single_wrap :: bool
  base_addr :: nat
  nwsa :: nat
  user_count :: int
  mmap_count :: int
  iter_list :: "nat list"
  enabled :: bool
  wrap :: bool
  mode :: msc_mode_t
  max_blocks :: nat
  base_mem :: "8 word list"
  reg_nwsa :: nat
  reg_mwp :: nat
  reg_wrapstat :: bool
  dma_live :: "nat set"
  dma_dev :: "nat \<Rightarrow> device"
  dma_shared :: bool
  next_dma :: nat
  allocs :: "bool list"

section \<open>Position locator\<close>

definition msc_block_is_empty :: "msu_h \<Rightarrow> msc_block_desc \<Rightarrow> bool" where
  "msc_block_is_empty H bd =
     (if valid_dw bd = 0 then True
      else if msc_data_sz H bd = 0 then True
      else False)"

text \<open>
  The loop of \<open>msc_oldest_window\<close>: \<open>i\<close> is the position of the window at the head
  of the remaining list, \<open>found\<close> the counter of the source.
\<close>

fun oldest_scan :: "msu_h \<Rightarrow> nat \<Rightarrow> msc_window list \<Rightarrow> nat \<Rightarrow> nat \<Rightarrow> nat option" where
  "oldest_scan H a [] i found = None"
| "oldest_scan H a (win # rest) i found =
     (let found' = (if addr (block win ! 0) = a then found + 1 else found)
      in if msc_block_is_empty H (bdesc (block win ! 0)) then oldest_scan H a rest (i + 1) found'
         else if found' \<noteq> 0 then Some i
         else oldest_scan H a rest (i + 1) found')"

definition next_write_addr :: "msc \<Rightarrow> nat" where
  "next_write_addr m = (if enabled m then reg_nwsa m * 2 ^ PAGE_SHIFT else nwsa m)"

definition msc_oldest_window :: "msu_h \<Rightarrow> msc \<Rightarrow> nat option" where
  "msc_oldest_window H m =
     (if win_list m = [] then None
      else case oldest_scan H (next_write_addr m) (win_list m) 0 0 of
             Some i \<Rightarrow> Some i
           | None \<Rightarrow> Some 0)"

text \<open>The loop of \<open>msc_win_oldest_block\<close> from block \<open>blk\<close> on.\<close>

function last_written_scan :: "msu_h \<Rightarrow> msc_window \<Rightarrow> nat \<Rightarrow> nat" where
  "last_written_scan H win blk =
     (if blk < nr_blocks win
      then (if msc_block_last_written H (bdesc (block win ! blk)) then blk
            else last_written_scan H win (blk + 1))
      else 0)"
  by pat_completeness auto
termination
  by (relation "measure (\<lambda>(H, win, blk). nr_blocks win - blk)") auto

declare last_written_scan.simps [simp del]

definition msc_win_oldest_block :: "msu_h \<Rightarrow> msc_window \<Rightarrow> nat" where
  "msc_win_oldest_block H win =
     (if \<not> msc_block_wrapped H (bdesc (block win ! 0)) then 0
      else last_written_scan H win 0)"

text \<open>
  A window is a candidate for "oldest" when its first block is not empty and the window
  whose first block sits at the next-write address is this window or an earlier one.
  The strict variant asks for an earlier one. \<open>scan_candidate\<close> is the first notion
  for a scan that starts with the counter at \<open>found\<close>.
\<close>

definition scan_candidate :: "msu_h \<Rightarrow> nat \<Rightarrow> msc_window list \<Rightarrow> nat \<Rightarrow> nat \<Rightarrow> bool" where
  "scan_candidate H a ws found k =
     (\<not> msc_block_is_empty H (bdesc (block (ws ! k) ! 0)) \<and>
      (found \<noteq> 0 \<or> (\<exists>i \<in> set [0..<Suc k]. addr (block (ws ! i) ! 0) = a)))"

definition oldest_candidate :: "msu_h \<Rightarrow> msc \<Rightarrow> nat \<Rightarrow> bool" where
  "oldest_candidate H m j =
     (\<not> msc_block_is_empty H (bdesc (block (win_list m ! j) ! 0)) \<and>
      (\<exists>i \<in> set [0..<Suc j]. addr (block (win_list m ! i) ! 0) = next_write_addr m))"

definition oldest_candidate_strict :: "msu_h \<Rightarrow> msc \<Rightarrow> nat \<Rightarrow> bool" where
  "oldest_candidate_strict H m j =
     (\<not> msc_block_is_empty H (bdesc (block (win_list m ! j) ! 0)) \<and>
      (\<exists>i \<in> set [0..<j]. addr (block (win_list m ! i) ! 0) = next_write_addr m))"

section \<open>Consumption iterator\<close>

text \<open>
  \<open>struct msc_iter\<close>. \<open>start_win\<close> is \<open>None\<close> for the null pointer; \<open>win\<close> is only
  read once \<open>start_win\<close> is set. The source's field \<open>block\<close> is \<open>block_it\<close> here.
\<close>

record msc_iter =
  start_win :: "nat option"
  win :: nat
  offset :: nat
  start_block :: int
  block_it :: int
  block_off :: nat
  wrap_count :: nat
  eof :: nat

text \<open>Unsigned subtraction on \<open>unsigned long\<close> and \<open>size_t\<close> (64 bits): it wraps.\<close>

definition sub_ul :: "nat \<Rightarrow> nat \<Rightarrow> nat" where
  "sub_ul a b = (2 ^ 64 + a - b mod 2 ^ 64) mod 2 ^ 64"

definition msc_is_last_win :: "msc \<Rightarrow> nat \<Rightarrow> bool" where
  "msc_is_last_win m w = (Suc w = length (win_list m))"

definition msc_next_window :: "msc \<Rightarrow> nat \<Rightarrow> nat" where
  "msc_next_window m w = (if msc_is_last_win m w then 0 else Suc w)"

definition msc_iter_bdesc :: "msc \<Rightarrow> msc_iter \<Rightarrow> msc_block_desc" where
  "msc_iter_bdesc m it = bdesc (block (win_list m ! win it) ! nat (block_it it))"

definition msc_iter_init :: msc_iter where
  "msc_iter_init =
     \<lparr>start_win = None, win = 0, offset = 0, start_block = - 1, block_it = - 1,
      block_off = 0, wrap_count = 0, eof = 0\<rparr>"

definition msc_iter_block_start :: "msu_h \<Rightarrow> msc \<Rightarrow> msc_iter \<Rightarrow> msc_iter" where
  "msc_iter_block_start H m it =
     (if start_block it \<noteq> - 1 then it
      else
        let sb = int (msc_win_oldest_block H (win_list m ! win it));
            it1 = it\<lparr>start_block := sb, block_it := sb, wrap_count := 0\<rparr>
        in if msc_block_wrapped H (msc_iter_bdesc m it1) then it1\<lparr>wrap_count := 2\<rparr> else it1)"

definition msc_iter_win_start :: "msu_h \<Rightarrow> msc \<Rightarrow> msc_iter \<Rightarrow> errno option \<times> msc_iter" where
  "msc_iter_win_start H m it =
     (if start_win it \<noteq> None then (None, it)
      else case msc_oldest_window H m of
             None \<Rightarrow> (Some EINVAL, it)
           | Some w \<Rightarrow>
               (None, msc_iter_block_start H m (it\<lparr>start_win := Some w, win := w, start_block := - 1\<rparr>)))"

text \<open>The result \<open>True\<close> is the source's return value 1: the lap is complete.\<close>

definition msc_iter_win_advance :: "msu_h \<Rightarrow> msc \<Rightarrow> msc_iter \<Rightarrow> bool \<times> msc_iter" where
  "msc_iter_win_advance H m it =
     (let it1 = it\<lparr>win := msc_next_window m (win it), start_block := - 1\<rparr>
      in if Some (win it1) = start_win it1 then (True, it1\<lparr>eof := eof it1 + 1\<rparr>)
         else (False, msc_iter_block_start H m it1))"

text \<open>The part of \<open>msc_iter_block_advance\<close> after the "wrapping" test.\<close>

definition block_advance_tail :: "msu_h \<Rightarrow> msc \<Rightarrow> msc_iter \<Rightarrow> bool \<times> msc_iter" where
  "block_advance_tail H m it =
     (if wrap_count it = 0 \<and> msc_block_last_written H (msc_iter_bdesc m it)
      then msc_iter_win_advance H m it
      else
        let b = block_it it + 1;
            it1 = it\<lparr>block_it := (if b = int (nr_blocks (win_list m ! win it)) then 0 else b)\<rparr>
        in if wrap_count it1 = 0 \<and> block_it it1 = start_block it1
           then msc_iter_win_advance H m it1
           else (False, it1))"

definition msc_iter_block_advance :: "msu_h \<Rightarrow> msc \<Rightarrow> msc_iter \<Rightarrow> bool \<times> msc_iter" where
  "msc_iter_block_advance H m it =
     (let it1 = it\<lparr>block_off := 0\<rparr>
      in if wrap_count it1 \<noteq> 0 \<and> block_it it1 = start_block it1
         then
           let it2 = it1\<lparr>wrap_count := wrap_count it1 - 1\<rparr>
           in if wrap_count it2 = 0 then msc_iter_win_advance H m it2
              else block_advance_tail H m it2
         else block_advance_tail H m it1)"

text \<open>
  The source pointer handed to the callback of \<open>msc_buffer_iterate\<close>: the block and the
  byte offset from the start of the block.
\<close>

record msc_src =
  src_win :: nat
  src_blk :: nat
  src_off :: nat

text \<open>
  One round of the \<open>do ... while\<close> loop of \<open>msc_buffer_iterate\<close>. The state is the
  iterator, \<open>len\<close> and the callback's private data; the first component of the result
  is \<open>True\<close> when the round leaves the loop by \<open>break\<close>. The callback \<open>fn\<close> returns
  the number of bytes it did not take.
\<close>

definition iterate_round ::
  "msu_h \<Rightarrow> msc \<Rightarrow> ('d \<Rightarrow> msc_src \<Rightarrow> nat \<Rightarrow> nat \<times> 'd) \<Rightarrow> msc_iter \<times> nat \<times> 'd
     \<Rightarrow> bool \<times> msc_iter \<times> nat \<times> 'd" where
  "iterate_round H m fn st =
     (case st of (it, len, d) \<Rightarrow>
        let data_bytes = msc_data_sz H (msc_iter_bdesc m it);
            src = MSC_BDESC H;
            tail = (block_it it = start_block it \<and> wrap_count it = 2);
            tocopy = (if tail then sub_ul (DATA_IN_PAGE H) data_bytes else data_bytes);
            src = (if tail then src + data_bytes else src)
        in if tocopy = 0
           then (case msc_iter_block_advance H m it of (stop, it') \<Rightarrow> (stop, it', len, d))
           else
             let tocopy = sub_ul tocopy (block_off it);
                 src = src + block_off it;
                 advance = \<not> len < tocopy;
                 tocopy = (if len < tocopy then len else tocopy)
             in case fn d \<lparr>src_win = win it, src_blk = nat (block_it it), src_off = src\<rparr> tocopy of
                  (remaining, d') \<Rightarrow>
                    let advance = (if remaining \<noteq> 0 then False else advance);
                        copied = sub_ul tocopy remaining;
                        len = sub_ul len copied;
                        it = it\<lparr>block_off := block_off it + copied, offset := offset it + copied\<rparr>
                    in if \<not> advance then (True, it, len, d')
                       else (case msc_iter_block_advance H m it of
                               (stop, it') \<Rightarrow> (stop, it', len, d')))"

text \<open>The loop itself, with fuel: \<open>None\<close> when the fuel runs out.\<close>

fun iterate_loop ::
  "nat \<Rightarrow> msu_h \<Rightarrow> msc \<Rightarrow> ('d \<Rightarrow> msc_src \<Rightarrow> nat \<Rightarrow> nat \<times> 'd) \<Rightarrow> msc_iter \<times> nat \<times> 'd
     \<Rightarrow> (msc_iter \<times> nat \<times> 'd) option" where
  "iterate_loop 0 H m fn st = None"
| "iterate_loop (Suc k) H m fn st =
     (case iterate_round H m fn st of
        (stop, it, len, d) \<Rightarrow>
          if stop \<or> len = 0 then Some (it, len, d) else iterate_loop k H m fn (it, len, d))"

text \<open>The result is the amount scanned, the iterator and the callback's data.\<close>

definition msc_buffer_iterate ::
  "nat \<Rightarrow> msu_h \<Rightarrow> msc \<Rightarrow> ('d \<Rightarrow> msc_src \<Rightarrow> nat \<Rightarrow> nat \<times> 'd) \<Rightarrow> msc_iter \<Rightarrow> nat \<Rightarrow> 'd
     \<Rightarrow> (nat \<times> msc_iter \<times> 'd) option" where
  "msc_buffer_iterate fuel H m fn it sz d =
     (if eof it \<noteq> 0 then Some (0, it, d)
      else case msc_iter_win_start H m it of
             (Some e, it') \<Rightarrow> Some (0, it', d)
           | (None, it') \<Rightarrow>
               (case iterate_loop fuel H m fn (it', sz, d) of
                  None \<Rightarrow> None
                | Some (it'', len, d') \<Rightarrow> Some (sub_ul sz len, it'', d')))"

text \<open>
  A lap of the iterator: the block it stands on is recorded as
  (window, block, wrap counter) and \<open>msc_iter_block_advance\<close> is called, until that call
  returns 1. The result is the list of visits and the iterator at the end; \<open>None\<close> when
  the fuel runs out first.
\<close>

fun iter_lap :: "nat \<Rightarrow> msu_h \<Rightarrow> msc \<Rightarrow> msc_iter \<Rightarrow> ((nat \<times> nat \<times> nat) list \<times> msc_iter) option" where
  "iter_lap 0 H m it = None"
| "iter_lap (Suc k) H m it =
     (case msc_iter_block_advance H m it of
        (stop, it') \<Rightarrow>
          if stop then Some ([(win it, nat (block_it it), wrap_count it)], it')
          else (case iter_lap k H m it' of
                  None \<Rightarrow> None
                | Some (vs, r) \<Rightarrow> Some ((win it, nat (block_it it), wrap_count it) # vs, r)))"

section \<open>Buffer lifecycle\<close>

text \<open>
  Every allocation (\<open>kzalloc\<close>, \<open>krealloc\<close>, \<open>kstrndup\<close>, \<open>alloc_pages\<close>,
  \<open>dma_alloc_coherent\<close>) takes its outcome from the script \<open>allocs\<close>.
\<close>

definition alloc_ok :: "msc \<Rightarrow> bool \<times> msc" where
  "alloc_ok m = (case allocs m of [] \<Rightarrow> (True, m) | b # bs \<Rightarrow> (b, m\<lparr>allocs := bs\<rparr>))"

text \<open>
  \<open>dma_alloc_coherent\<close> and \<open>dma_free_coherent\<close> for one page, with the device they
  are called for. A page is given back when the free names the device it was handed out
  for, or when the platform lets the two devices stand for each other; otherwise the DMA
  interface promises nothing and the page stays allocated here.
\<close>

definition dma_alloc_coherent :: "device \<Rightarrow> msc \<Rightarrow> nat option \<times> msc" where
  "dma_alloc_coherent dev m =
     (case alloc_ok m of
        (False, m') \<Rightarrow> (None, m')
      | (True, m') \<Rightarrow>
          (Some (next_dma m'),
           m'\<lparr>dma_live := insert (next_dma m') (dma_live m'),
              dma_dev := (dma_dev m')(next_dma m' := dev),
              next_dma := next_dma m' + PAGE_SIZE\<rparr>))"

definition dma_free_coherent :: "device \<Rightarrow> msc \<Rightarrow> nat \<Rightarrow> msc" where
  "dma_free_coherent dev m a =
     (if dma_dev m a = dev \<or> dma_shared m then m\<lparr>dma_live := dma_live m - {a}\<rparr> else m)"

text \<open>
  The page allocator. \<open>get_order\<close> is the kernel's: the number of bits of
  \<open>(size - 1) >> PAGE_SHIFT\<close>, which is the least order whose \<open>2 ^ order\<close> pages hold
  \<open>size\<close> bytes. \<open>alloc_pages\<close> hands out \<open>2 ^ order\<close> consecutive pages, which
  \<open>split_page\<close> then makes pages of their own, and \<open>__free_page\<close> gives one page
  back.
\<close>

fun fls :: "nat \<Rightarrow> nat" where
  "fls n = (if n = 0 then 0 else Suc (fls (n div 2)))"

declare fls.simps [simp del]

definition get_order :: "nat \<Rightarrow> nat" where
  "get_order sz = fls ((sz - 1) div 2 ^ PAGE_SHIFT)"

definition page_range :: "nat \<Rightarrow> nat \<Rightarrow> nat set" where
  "page_range a n = (\<lambda>i. a + i * PAGE_SIZE) ` {0..<n}"

definition alloc_pages :: "nat \<Rightarrow> msc \<Rightarrow> nat option \<times> msc" where
  "alloc_pages order m =
     (case alloc_ok m of
        (False, m') \<Rightarrow> (None, m')
      | (True, m') \<Rightarrow>
          (Some (next_dma m'),
           m'\<lparr>dma_live := dma_live m' \<union> page_range (next_dma m') (2 ^ order),
              next_dma := next_dma m' + 2 ^ order * PAGE_SIZE\<rparr>))"

definition free_page :: "msc \<Rightarrow> nat \<Rightarrow> msc" where
  "free_page m a = m\<lparr>dma_live := dma_live m - {a}\<rparr>"

text \<open>What \<open>memset(bdesc, 0, sizeof(*bdesc))\<close> leaves.\<close>

definition zero_bdesc :: msc_block_desc where
  "zero_bdesc = \<lparr>sw_tag = {}, block_sz = 0, next_blk = 0, next_win = 0, hw_tag = 0, valid_dw = 0\<rparr>"

definition msc_buffer_contig_alloc :: "msc \<Rightarrow> nat \<Rightarrow> errno option \<times> msc" where
  "msc_buffer_contig_alloc m sz =
     (if sz = 0 then (None, m)
      else case alloc_pages (get_order sz) m of
             (None, m') \<Rightarrow> (Some ENOMEM, m')
           | (Some a, m') \<Rightarrow>
               (None, m'\<lparr>nr_pages := sz div 2 ^ PAGE_SHIFT,
                          base_mem := replicate sz 0,
                          base_addr := a\<rparr>))"

text \<open>
  \<open>msc_buffer_contig_free\<close>: the loop runs over the offsets \<open>0\<close>, \<open>PAGE_SIZE\<close>, ...
  below \<open>nr_pages << PAGE_SHIFT\<close>, a multiple of the page size, and gives back the page
  at each.
\<close>

definition msc_buffer_contig_free :: "msc \<Rightarrow> msc" where
  "msc_buffer_contig_free m =
     (fold (\<lambda>i m'. free_page m' (base_addr m + i * PAGE_SIZE))
        [0..<((nr_pages m * 2 ^ PAGE_SHIFT) mod 2 ^ 64) div 2 ^ PAGE_SHIFT] m)\<lparr>nr_pages := 0\<rparr>"

text \<open>
  The allocation loop of \<open>msc_buffer_win_alloc\<close>: \<open>n\<close> blocks are still to come,
  \<open>acc\<close> holds the blocks allocated so far. At a failure the blocks of \<open>acc\<close> are
  given back, last one first (label \<open>err_nomem\<close>). The blocks are allocated for
  \<open>DEV_HOST\<close> and freed, here and in \<open>msc_buffer_win_free\<close>, for \<open>DEV_MSC\<close>. The page of a new block is taken
  to be zero; \<open>msc_buffer_relink\<close> clears the descriptor before anything reads it.
\<close>

fun win_alloc_blocks :: "msc \<Rightarrow> nat \<Rightarrow> msc_block list \<Rightarrow> msc_block list option \<times> msc" where
  "win_alloc_blocks m 0 acc = (Some acc, m)"
| "win_alloc_blocks m (Suc n) acc =
     (case dma_alloc_coherent DEV_HOST m of
        (None, m') \<Rightarrow> (None, fold (\<lambda>b m. dma_free_coherent DEV_MSC m (addr b)) (rev acc) m')
      | (Some a, m') \<Rightarrow>
          win_alloc_blocks m' n (acc @ [\<lparr>bdesc = zero_bdesc, addr = a, payload = []\<rparr>]))"

definition msc_buffer_win_alloc :: "msc \<Rightarrow> nat \<Rightarrow> errno option \<times> msc" where
  "msc_buffer_win_alloc m nr =
     (if nr = 0 then (None, m)
      else case alloc_ok m of
             (False, m1) \<Rightarrow> (Some ENOMEM, m1)
           | (True, m1) \<Rightarrow>
               let pg = (if win_list m1 \<noteq> []
                         then pgoff (last (win_list m1)) + nr_blocks (last (win_list m1))
                         else 0)
               in case win_alloc_blocks m1 nr [] of
                    (None, m2) \<Rightarrow> (Some ENOMEM, m2)
                  | (Some bs, m2) \<Rightarrow>
                      let w = \<lparr>pgoff = pg, nr_blocks = nr, block = bs\<rparr>;
                          m3 = (if win_list m2 = [] then m2\<lparr>base_addr := addr (bs ! 0)\<rparr> else m2)
                      in (None, m3\<lparr>win_list := win_list m3 @ [w], nr_pages := nr_pages m3 + nr\<rparr>))"

text \<open>\<open>msc_buffer_win_free\<close> on the window at position \<open>w\<close> of the list.\<close>

definition msc_buffer_win_free :: "msc \<Rightarrow> nat \<Rightarrow> msc" where
  "msc_buffer_win_free m w =
     (let wn = win_list m ! w;
          m1 = m\<lparr>nr_pages := sub_ul (nr_pages m) (nr_blocks wn)\<rparr>;
          m2 = m1\<lparr>win_list := take w (win_list m1) @ drop (Suc w) (win_list m1)\<rparr>;
          m3 = (if win_list m2 = [] then m2\<lparr>base_addr := 0\<rparr> else m2)
      in fold (\<lambda>i m. dma_free_coherent DEV_MSC m (addr (block wn ! i))) [0..<nr_blocks wn] m3)"

text \<open>
  \<open>list_for_each_entry_safe\<close> frees every window of the list in order; the one it
  frees is each time the head of what is left.
\<close>

definition msc_buffer_multi_free :: "msc \<Rightarrow> msc" where
  "msc_buffer_multi_free m = fold (\<lambda>_ m. msc_buffer_win_free m 0) (win_list m) m"

text \<open>
  The inner loop of \<open>msc_buffer_relink\<close> over the blocks of one window, from block
  \<open>blk\<close> on; \<open>nw\<close> is \<open>next_win->block[0].addr\<close> and \<open>tag\<close> the running \<open>sw_tag\<close>.
\<close>

function relink_blocks :: "nat \<Rightarrow> msc_window \<Rightarrow> sw_tag_bit set \<Rightarrow> nat \<Rightarrow> msc_window" where
  "relink_blocks nw wn tag blk =
     (if blk < nr_blocks wn then
        let last = (blk = nr_blocks wn - 1);
            tag' = (if last then insert MSC_SW_TAG_LASTBLK tag else tag);
            nb = (if last then addr (block wn ! 0) div 2 ^ PAGE_SHIFT
                  else addr (block wn ! (blk + 1)) div 2 ^ PAGE_SHIFT);
            bd = zero_bdesc\<lparr>next_win := (nw div 2 ^ PAGE_SHIFT) mod 2 ^ 32,
                            next_blk := nb mod 2 ^ 32,
                            sw_tag := tag', block_sz := PAGE_SIZE div 64\<rparr>
        in relink_blocks nw (wn\<lparr>block := (block wn)[blk := (block wn ! blk)\<lparr>bdesc := bd\<rparr>]\<rparr>) tag' (blk + 1)
      else wn)"
  by pat_completeness auto
termination
  by (relation "measure (\<lambda>(nw, wn, tag, blk). nr_blocks wn - blk)") auto

declare relink_blocks.simps [simp del]

definition relink_win :: "msc \<Rightarrow> nat \<Rightarrow> msc_window" where
  "relink_win m w =
     (let last = msc_is_last_win m w;
          tag = (if last then {MSC_SW_TAG_LASTWIN} else {});
          next_w = (if last then win_list m ! 0 else win_list m ! Suc w)
      in relink_blocks (addr (block next_w ! 0)) (win_list m ! w) tag 0)"

definition msc_buffer_relink :: "msc \<Rightarrow> msc" where
  "msc_buffer_relink m =
     fold (\<lambda>w m. m\<lparr>win_list := (win_list m)[w := relink_win m w]\<rparr>) [0..<length (win_list m)] m"

text \<open>
  The loop of \<open>msc_buffer_multi_alloc\<close>; the parameter \<open>nr_blocks\<close> of
  \<open>msc_buffer_win_alloc\<close> is an \<open>unsigned int\<close>, the list entries are \<open>unsigned long\<close>.
\<close>

fun multi_alloc_loop :: "msc \<Rightarrow> nat list \<Rightarrow> errno option \<times> msc" where
  "multi_alloc_loop m [] = (None, m)"
| "multi_alloc_loop m (p # ps) =
     (case msc_buffer_win_alloc m (p mod 2 ^ 32) of
        (Some e, m') \<Rightarrow> (Some e, msc_buffer_multi_free m')
      | (None, m') \<Rightarrow> multi_alloc_loop m' ps)"

definition msc_buffer_multi_alloc :: "msc \<Rightarrow> nat list \<Rightarrow> errno option \<times> msc" where
  "msc_buffer_multi_alloc m ps =
     (case multi_alloc_loop m ps of
        (Some e, m') \<Rightarrow> (Some e, m')
      | (None, m') \<Rightarrow> (None, msc_buffer_relink m'))"

definition msc_buffer_free :: "msc \<Rightarrow> msc" where
  "msc_buffer_free m =
     (if mode m = MSC_MODE_SINGLE then msc_buffer_contig_free m
      else if mode m = MSC_MODE_MULTI then msc_buffer_multi_free m
      else m)"

text \<open>The array \<open>nr_pages\<close> and its length \<open>nr_wins\<close> are the list \<open>ps\<close>.\<close>

definition msc_buffer_alloc :: "msc \<Rightarrow> nat list \<Rightarrow> errno option \<times> msc" where
  "msc_buffer_alloc m ps =
     (if user_count m \<noteq> - 1 then (Some EBUSY, m)
      else if mode m = MSC_MODE_SINGLE \<and> length ps \<noteq> 1 then (Some EINVAL, m)
      else
        case (if mode m = MSC_MODE_SINGLE
              then msc_buffer_contig_alloc m ((ps ! 0 * 2 ^ PAGE_SHIFT) mod 2 ^ 64)
              else if mode m = MSC_MODE_MULTI then msc_buffer_multi_alloc m ps
              else (Some ENOTSUPP, m)) of
          (Some e, m') \<Rightarrow> (Some e, m')
        | (None, m') \<Rightarrow>
            if user_count m' = - 1 then (None, m'\<lparr>user_count := 0\<rparr>)
            else (Some EINVAL, m'))"

definition msc_buffer_unlocked_free_unless_used :: "msc \<Rightarrow> errno option \<times> msc" where
  "msc_buffer_unlocked_free_unless_used m =
     (let count = user_count m;
          m1 = (if count = 0 then m\<lparr>user_count := - 1\<rparr> else m)
      in if count > 0 then (Some EBUSY, m1)
         else if count = 0 then (None, msc_buffer_free m1)
         else (None, m1))"

definition msc_buffer_free_unless_used :: "msc \<Rightarrow> errno option \<times> msc" where
  "msc_buffer_free_unless_used m = msc_buffer_unlocked_free_unless_used m"

text \<open>\<open>atomic_inc_unless_negative\<close> on \<open>user_count\<close>.\<close>

definition user_count_inc_unless_negative :: "msc \<Rightarrow> bool \<times> msc" where
  "user_count_inc_unless_negative m =
     (if user_count m < 0 then (False, m) else (True, m\<lparr>user_count := user_count m + 1\<rparr>))"

section \<open>Sequential read\<close>

text \<open>
  The reader's buffer: \<open>ucap\<close> bytes of it can be written, \<open>ubytes\<close> are the bytes
  written so far. Both readers fill it front to back, so \<open>copy_to_user\<close> appends; it
  returns the number of bytes it could not copy.
\<close>

record ubuf =
  ucap :: nat
  ubytes :: "8 word list"

definition copy_to_user :: "ubuf \<Rightarrow> 8 word list \<Rightarrow> nat \<times> ubuf" where
  "copy_to_user u bs =
     (let k = min (length bs) (ucap u - length (ubytes u))
      in (length bs - k, u\<lparr>ubytes := ubytes u @ take k bs\<rparr>))"

text \<open>Reading \<open>n\<close> bytes of a region from offset \<open>start\<close>; past its end the model reads zeros.\<close>

definition mem_read :: "8 word list \<Rightarrow> nat \<Rightarrow> nat \<Rightarrow> 8 word list" where
  "mem_read mem start n = map (\<lambda>i. if i < length mem then mem ! i else 0) [start..<start + n]"

definition msc_win_to_user :: "msu_h \<Rightarrow> msc \<Rightarrow> ubuf \<Rightarrow> msc_src \<Rightarrow> nat \<Rightarrow> nat \<times> ubuf" where
  "msc_win_to_user H m u src len =
     copy_to_user u
       (mem_read (payload (block (win_list m ! src_win src) ! src_blk src))
          (src_off src - MSC_BDESC H) len)"

text \<open>
  \<open>msc_single_to_user\<close>. Its block under \<open>if (wrapped)\<close> is \<open>single_wrapped\<close>: from
  \<open>start\<close>, already advanced by \<open>in_sz\<close>, and \<open>rem\<close> it yields the new \<open>start\<close>
  and \<open>rem\<close>, or the fault.
\<close>

definition single_wrapped ::
  "8 word list \<Rightarrow> nat \<Rightarrow> nat \<Rightarrow> nat \<Rightarrow> ubuf \<Rightarrow> (errno + nat \<times> nat) \<times> ubuf" where
  "single_wrapped in_buf sz start rem u =
     (if start < sz then
        let tocopy = min rem (sz - start)
        in case copy_to_user u (mem_read in_buf start tocopy) of
             (r, u') \<Rightarrow>
               if r \<noteq> 0 then (Inl EFAULT, u')
               else (Inr ((start + tocopy) AND sub_ul sz 1, rem - tocopy), u')
      else (Inr (start AND sub_ul sz 1, rem), u))"

definition msc_single_to_user ::
  "8 word list \<Rightarrow> nat \<Rightarrow> nat \<Rightarrow> bool \<Rightarrow> ubuf \<Rightarrow> nat \<Rightarrow> nat \<Rightarrow> (errno + nat) \<times> ubuf" where
  "msc_single_to_user in_buf in_pages in_sz wrapped u off len =
     (let sz = (in_pages * 2 ^ PAGE_SHIFT) mod 2 ^ 64
      in case (if wrapped then single_wrapped in_buf sz ((off + in_sz) mod 2 ^ 64) len u
               else (Inr (off, len), u)) of
           (Inl e, u1) \<Rightarrow> (Inl e, u1)
         | (Inr (start, rem), u1) \<Rightarrow>
             if rem \<noteq> 0 then
               let tocopy = min rem (sub_ul in_sz start)
               in case copy_to_user u1 (mem_read in_buf start tocopy) of
                    (r, u2) \<Rightarrow>
                      if r \<noteq> 0 then (Inl EFAULT, u2)
                      else (Inr (len - (rem - tocopy)), u2)
             else (Inr (len - rem), u1))"

text \<open>
  \<open>intel_th_msc_read\<close>: the result is the return value, the device, the iterator, the
  reader's buffer and the file position.
\<close>

definition intel_th_msc_read ::
  "nat \<Rightarrow> msu_h \<Rightarrow> msc \<Rightarrow> msc_iter \<Rightarrow> ubuf \<Rightarrow> nat \<Rightarrow> nat
     \<Rightarrow> ((errno + nat) \<times> msc \<times> msc_iter \<times> ubuf \<times> nat) option" where
  "intel_th_msc_read fuel H m it u len ppos =
     (case user_count_inc_unless_negative m of
        (False, m0) \<Rightarrow> Some (Inr 0, m0, it, u, ppos)
      | (True, m1) \<Rightarrow>
          let put = m1\<lparr>user_count := user_count m1 - 1\<rparr>;
              off = ppos;
              sz = (if mode m1 = MSC_MODE_SINGLE \<and> \<not> single_wrap m1 then single_sz m1
                    else (nr_pages m1 * 2 ^ PAGE_SHIFT) mod 2 ^ 64)
          in if sz = 0 then Some (Inr 0, put, it, u, ppos)
             else if off \<ge> sz then Some (Inr 0, put, it, u, ppos)
             else
               let len = (if (off + len) mod 2 ^ 64 \<ge> sz then sz - off else len)
               in if mode m1 = MSC_MODE_SINGLE then
                    (case msc_single_to_user (base_mem m1) (nr_pages m1) (single_sz m1)
                            (single_wrap m1) u off len of
                       (Inr n, u') \<Rightarrow> Some (Inr n, put, it, u', if n > 0 then ppos + n else ppos)
                     | (Inl e, u') \<Rightarrow> Some (Inl e, put, it, u', ppos))
                  else if mode m1 = MSC_MODE_MULTI then
                    (case msc_buffer_iterate fuel H m1 (msc_win_to_user H m1) it len u of
                       None \<Rightarrow> None
                     | Some (n, it', u') \<Rightarrow> Some (Inr n, put, it', u', offset it'))
                  else Some (Inl ENOTSUPP, put, it, u, ppos))"

section \<open>Reader sessions and capture\<close>

text \<open>
  \<open>msc_iter_install\<close>; \<open>i\<close> identifies the iterator that \<open>kzalloc\<close> returns. The body
  runs with \<open>buf_mutex\<close> held, as do the bodies of \<open>msc_iter_remove\<close>,
  \<open>intel_th_msc_activate\<close> and \<open>intel_th_msc_deactivate\<close>: each is one step.
\<close>

definition msc_iter_install :: "msc \<Rightarrow> nat \<Rightarrow> (errno + msc_iter) \<times> msc" where
  "msc_iter_install m i =
     (case alloc_ok m of
        (False, m') \<Rightarrow> (Inl ENOMEM, m')
      | (True, m') \<Rightarrow>
          if enabled m' then (Inl EBUSY, m')
          else (Inr msc_iter_init, m'\<lparr>iter_list := iter_list m' @ [i]\<rparr>))"

definition msc_iter_remove :: "msc \<Rightarrow> nat \<Rightarrow> msc" where
  "msc_iter_remove m i = m\<lparr>iter_list := remove1 i (iter_list m)\<rparr>"

definition intel_th_msc_open :: "bool \<Rightarrow> msc \<Rightarrow> nat \<Rightarrow> (errno + msc_iter) \<times> msc" where
  "intel_th_msc_open capable m i = (if \<not> capable then (Inl EPERM, m) else msc_iter_install m i)"

definition intel_th_msc_release :: "msc \<Rightarrow> nat \<Rightarrow> msc" where
  "intel_th_msc_release m i = msc_iter_remove m i"

definition clear_hw_header_win :: "msc_window \<Rightarrow> msc_window" where
  "clear_hw_header_win wn =
     fold (\<lambda>blk wn. wn\<lparr>block := (block wn)[blk :=
              (block wn ! blk)\<lparr>bdesc := (bdesc (block wn ! blk))\<lparr>hw_tag := 0, valid_dw := 0\<rparr>\<rparr>]\<rparr>)
          [0..<nr_blocks wn] wn"

definition msc_buffer_clear_hw_header :: "msc \<Rightarrow> msc" where
  "msc_buffer_clear_hw_header m = m\<lparr>win_list := map clear_hw_header_win (win_list m)\<rparr>"

definition msc_configure :: "msc \<Rightarrow> errno option \<times> msc" where
  "msc_configure m =
     (if mode m = MSC_MODE_EXI \<or> mode m = MSC_MODE_DEBUG then (Some ENOTSUPP, m)
      else
        let m1 = (if mode m = MSC_MODE_MULTI then msc_buffer_clear_hw_header m else m)
        in (None, m1\<lparr>enabled := True\<rparr>))"

definition msc_disable :: "msc \<Rightarrow> msc" where
  "msc_disable m =
     (let m1 = (if mode m = MSC_MODE_SINGLE
                then m\<lparr>single_wrap := reg_wrapstat m,
                       single_sz := reg_mwp m AND sub_ul ((nr_pages m * 2 ^ PAGE_SHIFT) mod 2 ^ 64) 1\<rparr>
                else m)
      in m1\<lparr>nwsa := reg_nwsa m1 * 2 ^ PAGE_SHIFT, enabled := False\<rparr>)"

definition intel_th_msc_activate :: "msc \<Rightarrow> errno option \<times> msc" where
  "intel_th_msc_activate m =
     (case user_count_inc_unless_negative m of
        (False, m0) \<Rightarrow> (Some ENODEV, m0)
      | (True, m1) \<Rightarrow>
          (case (if iter_list m1 = [] then msc_configure m1 else (Some EBUSY, m1)) of
             (Some e, m2) \<Rightarrow> (Some e, m2\<lparr>user_count := user_count m2 - 1\<rparr>)
           | (None, m2) \<Rightarrow> (None, m2)))"

definition intel_th_msc_deactivate :: "msc \<Rightarrow> msc" where
  "intel_th_msc_deactivate m =
     (if enabled m then (let m1 = msc_disable m in m1\<lparr>user_count := user_count m1 - 1\<rparr>) else m)"

text \<open>
  \<open>intel_th_msc_init\<close> on the zeroed structure that \<open>devm_kzalloc\<close> returns. The
  fields that are the model's own start with no page handed out and a script that lets
  every allocation succeed; \<open>dma_shared\<close> is set here and is overwritten where a
  statement is about either kind of platform.
\<close>

definition intel_th_msc_init :: "msc \<Rightarrow> msc" where
  "intel_th_msc_init m =
     m\<lparr>user_count := - 1, mode := MSC_MODE_MULTI, win_list := [], iter_list := []\<rparr>"

definition msc_zeroed :: msc where
  "msc_zeroed =
     \<lparr>win_list = [], nr_pages = 0, single_sz = 0, single_wrap = False, base_addr = 0,
      nwsa = 0, user_count = 0, mmap_count = 0, iter_list = [], enabled = False,
      wrap = False, mode = MSC_MODE_SINGLE, max_blocks = 0, base_mem = [],
      reg_nwsa = 0, reg_mwp = 0, reg_wrapstat = False,
      dma_live = {}, dma_dev = (\<lambda>a. DEV_MSC), dma_shared = True, next_dma = 0, allocs = []\<rparr>"

text \<open>
  What the hardware and the allocator do between two steps of the driver: the register
  contents and the allocation script change, nothing else.
\<close>

definition environment :: "msc \<Rightarrow> msc \<Rightarrow> bool" where
  "environment m m' =
     (\<exists>a b c d. m' = m\<lparr>reg_nwsa := a, reg_mwp := b, reg_wrapstat := c, allocs := d\<rparr>)"

section \<open>Configuration front-end\<close>

text \<open>
  The bytes written to the attribute are \<open>buf\<close>, and \<open>size\<close> is their number. sysfs
  ends the buffer with a NUL; the scan below can look past it (\<open>len\<close> shrinks by one
  less than \<open>p\<close> grows at every comma), and there the model reads NUL as well.
\<close>

definition mem_at :: "string \<Rightarrow> nat \<Rightarrow> char" where
  "mem_at buf i = (if i < length buf then buf ! i else CHR 0x00)"

definition memchr :: "string \<Rightarrow> nat \<Rightarrow> char \<Rightarrow> nat \<Rightarrow> nat option" where
  "memchr buf p c n = find (\<lambda>i. mem_at buf i = c) [p..<p + n]"

definition kstrndup :: "string \<Rightarrow> nat \<Rightarrow> nat \<Rightarrow> string" where
  "kstrndup buf p n = takeWhile (\<lambda>c. c \<noteq> CHR 0x00) (map (mem_at buf) [p..<p + n])"

text \<open>
  How the \<open>do ... while\<close> loop of \<open>nr_pages_store\<close> ends: at the label \<open>free_win\<close> with
  the value of \<open>ret\<close>, by \<open>return -ENOMEM\<close>, or by falling through to the allocation
  with the array \<open>win\<close>.
\<close>

datatype scan_result =
    Goto_free_win "errno option" msc
  | Return_nomem msc
  | Scanned "nat list" msc

text \<open>
  The loop. \<open>K\<close> stands for \<open>kstrtoul(s, 10, &val)\<close>, which is not part of the
  sources: it yields the return value and \<open>val\<close>.
\<close>

function store_scan ::
  "(string \<Rightarrow> errno option \<times> nat) \<Rightarrow> string \<Rightarrow> msc \<Rightarrow> nat \<Rightarrow> nat \<Rightarrow> nat list \<Rightarrow> scan_result" where
  "store_scan K buf m p len wins =
     (case alloc_ok m of
        (False, m1) \<Rightarrow> Goto_free_win (Some ENOMEM) m1
      | (True, m1) \<Rightarrow>
          (case K (kstrndup buf p (case memchr buf p CHR '','' len of Some e \<Rightarrow> e - p | None \<Rightarrow> len)) of
             (ret, val) \<Rightarrow>
               if ret \<noteq> None \<or> val = 0 then Goto_free_win ret m1
               else if wins \<noteq> [] \<and> mode m1 = MSC_MODE_SINGLE then Goto_free_win (Some EINVAL) m1
               else
                 (case alloc_ok m1 of
                    (False, m2) \<Rightarrow> Return_nomem m2
                  | (True, m2) \<Rightarrow>
                      (case memchr buf p CHR '','' len of
                         None \<Rightarrow>
                           Scanned (wins @ [val])
                             (m2\<lparr>max_blocks := (if val > max_blocks m2 then val else max_blocks m2) mod 2 ^ 32\<rparr>)
                       | Some e \<Rightarrow>
                           if len - (e - p) \<noteq> 0
                           then store_scan K buf
                                  (m2\<lparr>max_blocks := (if val > max_blocks m2 then val else max_blocks m2) mod 2 ^ 32\<rparr>)
                                  (e + 1) (len - (e - p)) (wins @ [val])
                           else Scanned (wins @ [val])
                                  (m2\<lparr>max_blocks := (if val > max_blocks m2 then val else max_blocks m2) mod 2 ^ 32\<rparr>)))))"
  by pat_completeness auto
termination
proof (relation "measure (\<lambda>(K, buf, m, p, len, wins). length buf - p)")
  show "wf (measure (\<lambda>(K, buf, m, p, len, wins). length buf - p))"
    by simp
next
  fix K :: "string \<Rightarrow> errno option \<times> nat" and buf :: string and m m2 :: msc
    and p len e :: nat and wins :: "nat list" and val :: nat
  assume "memchr buf p CHR '','' len = Some e"
  then have "e \<in> set [p..<p + len]" and "mem_at buf e = CHR '',''"
    by (auto simp: memchr_def find_Some_iff)
  then have "p \<le> e" and "e < length buf"
    by (auto simp: mem_at_def split: if_splits)
  then show "((K, buf, m2\<lparr>max_blocks := (if val > max_blocks m2 then val else max_blocks m2) mod 2 ^ 32\<rparr>,
               e + 1, len - (e - p), wins @ [val]), (K, buf, m, p, len, wins))
             \<in> measure (\<lambda>(K, buf, m, p, len, wins). length buf - p)"
    by simp
qed

declare store_scan.simps [simp del]

definition nr_pages_store ::
  "(string \<Rightarrow> errno option \<times> nat) \<Rightarrow> bool \<Rightarrow> msc \<Rightarrow> string \<Rightarrow> (errno + nat) \<times> msc" where
  "nr_pages_store K capable m buf =
     (if \<not> capable then (Inl EPERM, m)
      else case msc_buffer_free_unless_used m of
             (Some e, m1) \<Rightarrow> (Inl e, m1)
           | (None, m1) \<Rightarrow>
               let len = (case memchr buf 0 CHR 0x0A (length buf) of Some e \<Rightarrow> e | None \<Rightarrow> length buf)
               in case store_scan K buf (m1\<lparr>max_blocks := 0\<rparr>) 0 len [] of
                    Return_nomem m2 \<Rightarrow> (Inl ENOMEM, m2)
                  | Goto_free_win (Some e) m2 \<Rightarrow> (Inl e, m2)
                  | Goto_free_win None m2 \<Rightarrow> (Inr (length buf), m2)
                  | Scanned wins m2 \<Rightarrow>
                      (case msc_buffer_alloc m2 wins of
                         (Some e, m3) \<Rightarrow> (Inl e, m3)
                       | (None, m3) \<Rightarrow> (Inr (length buf), m3)))"

text \<open>
  The entries of the list as the loop of \<open>nr_pages_store\<close> cuts them out of the
  buffer: the strings it hands to \<open>kstrtoul\<close>, one per round, when no round leaves the
  loop early.
\<close>

function scan_strings :: "string \<Rightarrow> nat \<Rightarrow> nat \<Rightarrow> string list" where
  "scan_strings buf p len =
     kstrndup buf p (case memchr buf p CHR '','' len of Some e \<Rightarrow> e - p | None \<Rightarrow> len) #
     (case memchr buf p CHR '','' len of
        None \<Rightarrow> []
      | Some e \<Rightarrow> if len - (e - p) \<noteq> 0 then scan_strings buf (e + 1) (len - (e - p)) else [])"
  by pat_completeness auto
termination
proof (relation "measure (\<lambda>(buf, p, len). length buf - p)")
  show "wf (measure (\<lambda>(buf, p, len). length buf - p))"
    by simp
next
  fix buf :: string and p len e :: nat
  assume "memchr buf p CHR '','' len = Some e"
  then have "e \<in> set [p..<p + len]" and "mem_at buf e = CHR '',''"
    by (auto simp: memchr_def find_Some_iff)
  then have "p \<le> e" and "e < length buf"
    by (auto simp: mem_at_def split: if_splits)
  then show "((buf, e + 1, len - (e - p)), (buf, p, len)) \<in> measure (\<lambda>(buf, p, len). length buf - p)"
    by simp
qed

declare scan_strings.simps [simp del]

text \<open>The length that \<open>nr_pages_store\<close> starts the scan with: up to the first newline.\<close>

definition line_len :: "string \<Rightarrow> nat" where
  "line_len buf = (case memchr buf 0 CHR 0x0A (length buf) of Some e \<Rightarrow> e | None \<Rightarrow> length buf)"

definition size_entries :: "string \<Rightarrow> string list" where
  "size_entries buf = scan_strings buf 0 (line_len buf)"

text \<open>An entry that \<open>kstrtoul\<close> reads as a number other than zero.\<close>

definition reads_nonzero :: "(string \<Rightarrow> errno option \<times> nat) \<Rightarrow> string \<Rightarrow> bool" where
  "reads_nonzero K s = (fst (K s) = None \<and> snd (K s) \<noteq> 0)"

text \<open>
  \<open>mode_store\<close> from the label \<open>found\<close> on, with \<open>i\<close> the mode whose name matched.
\<close>

definition mode_store_found :: "msc \<Rightarrow> msc_mode_t \<Rightarrow> errno option \<times> msc" where
  "mode_store_found m i =
     (case msc_buffer_unlocked_free_unless_used m of
        (Some e, m1) \<Rightarrow> (Some e, m1)
      | (None, m1) \<Rightarrow> (None, m1\<lparr>mode := i\<rparr>))"

text \<open>
  A decimal reader standing for \<open>kstrtoul(s, 10, &val)\<close> where an example needs one:
  digits, then at most one newline; anything else is \<open>-EINVAL\<close>, a value that does not
  fit 64 bits \<open>-ERANGE\<close>.
\<close>

definition is_digit :: "char \<Rightarrow> bool" where
  "is_digit c = (c \<in> set ''0123456789'')"

definition digits_val :: "string \<Rightarrow> nat" where
  "digits_val ds = foldl (\<lambda>n c. 10 * n + (of_char c - 48)) 0 ds"

definition kstrtoul_dec :: "string \<Rightarrow> errno option \<times> nat" where
  "kstrtoul_dec s =
     (let ds = takeWhile is_digit s; rest = dropWhile is_digit s
      in if ds = [] then (Some EINVAL, 0)
         else if rest \<noteq> [] \<and> rest \<noteq> [CHR 0x0A] then (Some EINVAL, 0)
         else if digits_val ds \<ge> 2 ^ 64 then (Some ERANGE, 0)
         else (None, digits_val ds))"

text \<open>
  \<open>wrap_store\<close>. The fields \<open>enabled\<close> and \<open>wrap\<close> are declared as bit-fields of
  one \<open>unsigned int\<close>, so the assignment \<open>msc->wrap = !!val\<close> is a load of that word, a
  change of the \<open>wrap\<close> bit in the value loaded and a store of the word. \<open>wrap_store\<close>
  takes no lock. \<open>wrap_unit_load\<close> is the word as the two flags, \<open>wrap_unit_store\<close>
  the store of such a word.
\<close>

definition wrap_unit_load :: "msc \<Rightarrow> bool \<times> bool" where
  "wrap_unit_load m = (enabled m, wrap m)"

definition wrap_unit_store :: "bool \<times> bool \<Rightarrow> msc \<Rightarrow> msc" where
  "wrap_unit_store u m = m\<lparr>enabled := fst u, wrap := snd u\<rparr>"

definition wrap_store ::
  "(string \<Rightarrow> errno option \<times> nat) \<Rightarrow> msc \<Rightarrow> string \<Rightarrow> (errno + nat) \<times> msc" where
  "wrap_store K m buf =
     (case K buf of
        (Some e, val) \<Rightarrow> (Inl e, m)
      | (None, val) \<Rightarrow>
          (Inr (length buf), wrap_unit_store (fst (wrap_unit_load m), val \<noteq> 0) m))"

text \<open>
  The driver as a transition system. One step is one of the operations above, each run
  from its beginning to its end with nothing in between, or a change of the registers and
  of the allocator's script.
\<close>

inductive step :: "msc \<Rightarrow> msc \<Rightarrow> bool" where
  s_env: "environment m m' \<Longrightarrow> step m m'"
| s_open: "step m (snd (intel_th_msc_open capable m i))"
| s_release: "i \<in> set (iter_list m) \<Longrightarrow> step m (intel_th_msc_release m i)"
| s_activate: "step m (snd (intel_th_msc_activate m))"
| s_deactivate: "step m (intel_th_msc_deactivate m)"
| s_mode: "step m (snd (mode_store_found m i'))"
| s_nr_pages: "step m (snd (nr_pages_store K capable m buf))"
| s_wrap: "step m (snd (wrap_store K m buf))"

text \<open>
  The states that the device reaches from the state that \<open>intel_th_msc_init\<close> leaves,
  on either kind of platform, when every operation is one step.
\<close>

inductive serial :: "msc \<Rightarrow> bool" where
  ser_init: "serial (intel_th_msc_init (msc_zeroed\<lparr>dma_shared := s\<rparr>))"
| ser_step: "serial m \<Longrightarrow> step m m' \<Longrightarrow> serial m'"

text \<open>
  The operations that change \<open>enabled\<close> or the list of iterators hold \<open>buf_mutex\<close>
  from their first access to their last, so no step of another operation that takes the
  lock falls in between and they are single steps. \<open>wrap_store\<close> holds no lock: between
  its load of the word and its store other operations can run. \<open>run a m\<close> says that
  the device gets from state \<open>a\<close> to state \<open>m\<close>; in the third rule a \<open>wrap_store\<close>
  has loaded the word in state \<open>l\<close> and stores it, with the new \<open>wrap\<close> bit \<open>v\<close>, in
  state \<open>m\<close>.
\<close>

inductive run :: "msc \<Rightarrow> msc \<Rightarrow> bool" where
  run_refl: "run m m"
| run_step: "run a m \<Longrightarrow> step m m' \<Longrightarrow> run a m'"
| run_wrap: "run a l \<Longrightarrow> run l m \<Longrightarrow> run a (wrap_unit_store (fst (wrap_unit_load l), v) m)"

inductive reachable :: "msc \<Rightarrow> bool" where
  r_run: "run (intel_th_msc_init (msc_zeroed\<lparr>dma_shared := s\<rparr>)) m \<Longrightarrow> reachable m"

section \<open>Notions used in the statements\<close>

text \<open>The addresses of the blocks of a window.\<close>

definition win_addrs :: "msc_window \<Rightarrow> nat set" where
  "win_addrs wn = (\<lambda>i. addr (block wn ! i)) ` {0..<nr_blocks wn}"

text \<open>
  A callback for \<open>msc_buffer_iterate\<close> that records every call, the source pointer and
  the length, and leaves \<open>r\<close> of the bytes untaken.
\<close>

definition log_fn ::
  "(msc_src \<Rightarrow> nat \<Rightarrow> nat) \<Rightarrow> (msc_src \<times> nat) list \<Rightarrow> msc_src \<Rightarrow> nat \<Rightarrow> nat \<times> (msc_src \<times> nat) list" where
  "log_fn r d s n = (r s n, d @ [(s, n)])"

text \<open>
  The iterator stands on the tail segment: on the starting block, with the wrap counter
  at 2. \<open>segment\<close> is the number of bytes of the segment it stands on and
  \<open>segment_start\<close> the offset of that segment from the start of the block.
\<close>

definition on_tail :: "msc_iter \<Rightarrow> bool" where
  "on_tail it = (block_it it = start_block it \<and> wrap_count it = 2)"

definition segment :: "msu_h \<Rightarrow> msc \<Rightarrow> msc_iter \<Rightarrow> nat" where
  "segment H m it =
     (if on_tail it then DATA_IN_PAGE H - msc_data_sz H (msc_iter_bdesc m it)
      else msc_data_sz H (msc_iter_bdesc m it))"

definition segment_start :: "msu_h \<Rightarrow> msc \<Rightarrow> msc_iter \<Rightarrow> nat" where
  "segment_start H m it =
     MSC_BDESC H + (if on_tail it then msc_data_sz H (msc_iter_bdesc m it) else 0)"

text \<open>The device as the scan of \<open>nr_pages_store\<close> leaves it.\<close>

fun scan_msc :: "scan_result \<Rightarrow> msc" where
  "scan_msc (Goto_free_win r m) = m"
| "scan_msc (Return_nomem m) = m"
| "scan_msc (Scanned wins m) = m"

text \<open>
  Two states of the device agree on what sessions and capture depend on: the capture
  flag, the list of iterators, the usage counter and the mode.
\<close>

definition same_control :: "msc \<Rightarrow> msc \<Rightarrow> bool" where
  "same_control m m' =
     (enabled m' = enabled m \<and> iter_list m' = iter_list m \<and>
      user_count m' = user_count m \<and> mode m' = mode m)"

text \<open>
  The pages among \<open>A\<close> that \<open>dma_free_coherent\<close> gives back when it is called for the
  device \<open>dev\<close>; the addresses of all blocks of the window list; a window whose
  \<open>nr_blocks\<close> is the length of its block array and is not zero; and the allocator's
  condition that every live address lies below the next one it hands out.
\<close>

definition given_back :: "device \<Rightarrow> msc \<Rightarrow> nat set \<Rightarrow> nat set" where
  "given_back dev m A = {a \<in> A. dma_dev m a = dev \<or> dma_shared m}"

definition wins_live :: "msc \<Rightarrow> nat set" where
  "wins_live m = (\<Union>w \<in> set (win_list m). win_addrs w)"

definition win_ok :: "msc_window \<Rightarrow> bool" where
  "win_ok w = (nr_blocks w = length (block w) \<and> 0 < nr_blocks w)"



text \<open>
  The allocations of one call. \<open>msc_buffer_win_alloc\<close> makes none for a window of no
  block and otherwise one for the window and one for each block;
  \<open>msc_buffer_multi_alloc\<close> makes those of its windows, one window after the other.
  \<open>script_fails xs n\<close>: the script \<open>xs\<close> lets one of the next \<open>n\<close> allocations fail.
\<close>

definition win_allocs :: "nat \<Rightarrow> nat" where
  "win_allocs nr = (if nr = 0 then 0 else Suc nr)"

definition allocs_needed :: "nat list \<Rightarrow> nat" where
  "allocs_needed ps = sum_list (map (\<lambda>p. win_allocs (p mod 2 ^ 32)) ps)"

definition script_fails :: "bool list \<Rightarrow> nat \<Rightarrow> bool" where
  "script_fails xs n = (False \<in> set (take n xs))"

text \<open>
  The pages a buffer consists of: in single mode the \<open>nr_pages\<close> pages from the base
  address on, in multi mode the blocks of the windows.
\<close>

definition buffer_pages :: "msc \<Rightarrow> nat set" where
  "buffer_pages m =
     (if mode m = MSC_MODE_SINGLE then page_range (base_addr m) (nr_pages m)
      else if mode m = MSC_MODE_MULTI then wins_live m
      else {})"

text \<open>
  What the hardware does with the linkage: a pointer field holds a page frame number,
  and following it means finding the block, or the window's first block, at that page.
  \<open>blk_chain wn k b\<close> lists the \<open>k\<close> blocks reached from block \<open>b\<close> by following
  \<open>next_blk\<close> \<open>k\<close> times; \<open>win_chain m k w\<close> lists the \<open>k\<close> windows reached from
  window \<open>w\<close> by following the \<open>next_win\<close> of the window's last block.
\<close>

definition blk_of_pfn :: "msc_window \<Rightarrow> nat \<Rightarrow> nat option" where
  "blk_of_pfn wn p = find (\<lambda>i. addr (block wn ! i) div 2 ^ PAGE_SHIFT = p) [0..<nr_blocks wn]"

definition win_of_pfn :: "msc \<Rightarrow> nat \<Rightarrow> nat option" where
  "win_of_pfn m p =
     find (\<lambda>w. addr (block (win_list m ! w) ! 0) div 2 ^ PAGE_SHIFT = p) [0..<length (win_list m)]"

primrec blk_chain :: "msc_window \<Rightarrow> nat \<Rightarrow> nat \<Rightarrow> nat list option" where
  "blk_chain wn 0 b = Some []"
| "blk_chain wn (Suc k) b =
     (case blk_of_pfn wn (next_blk (bdesc (block wn ! b))) of
        None \<Rightarrow> None
      | Some b' \<Rightarrow> map_option ((#) b') (blk_chain wn k b'))"

primrec win_chain :: "msc \<Rightarrow> nat \<Rightarrow> nat \<Rightarrow> nat list option" where
  "win_chain m 0 w = Some []"
| "win_chain m (Suc k) w =
     (case win_of_pfn m (next_win (bdesc (block (win_list m ! w) ! (nr_blocks (win_list m ! w) - 1)))) of
        None \<Rightarrow> None
      | Some w' \<Rightarrow> map_option ((#) w') (win_chain m k w'))"

text \<open>
  Every block of the list lies below \<open>2 ^ 44\<close>: its page frame number fits the 32 bits
  of a pointer field.
\<close>

definition pfn_fits :: "msc \<Rightarrow> bool" where
  "pfn_fits m =
     list_all (\<lambda>wn. list_all (\<lambda>b. addr b < 2 ^ (32 + PAGE_SHIFT)) (block wn)) (win_list m)"

text \<open>
  The blocks of a window lie on different pages, and so do the first blocks of the
  windows of the list.
\<close>

definition blocks_apart :: "msc_window \<Rightarrow> bool" where
  "blocks_apart wn = inj_on (\<lambda>i. addr (block wn ! i) div 2 ^ PAGE_SHIFT) {0..<nr_blocks wn}"

definition windows_apart :: "msc \<Rightarrow> bool" where
  "windows_apart m =
     inj_on (\<lambda>w. addr (block (win_list m ! w) ! 0) div 2 ^ PAGE_SHIFT) {0..<length (win_list m)}"

text \<open>
  The descriptor that \<open>msc_buffer_relink\<close> writes into block \<open>i\<close> of the window \<open>wn\<close>,
  for the first-block address \<open>nw\<close> of the next window and the window's tag \<open>tag\<close>.
\<close>

definition link_bdesc :: "nat \<Rightarrow> msc_window \<Rightarrow> sw_tag_bit set \<Rightarrow> nat \<Rightarrow> msc_block_desc" where
  "link_bdesc nw wn tag i =
     zero_bdesc\<lparr>next_win := (nw div 2 ^ PAGE_SHIFT) mod 2 ^ 32,
                next_blk := (addr (block wn ! (Suc i mod nr_blocks wn)) div 2 ^ PAGE_SHIFT) mod 2 ^ 32,
                sw_tag := (if Suc i = nr_blocks wn then insert MSC_SW_TAG_LASTBLK tag else tag),
                block_sz := PAGE_SIZE div 64\<rparr>"

text \<open>
  Window \<open>w\<close> of the list \<open>wl\<close> as \<open>msc_buffer_relink\<close> leaves it, written over the
  list as it was before the call.
\<close>

definition relinked :: "msc_window list \<Rightarrow> nat \<Rightarrow> msc_window" where
  "relinked wl w =
     relink_blocks (addr (block (wl ! (if Suc w = length wl then 0 else Suc w)) ! 0)) (wl ! w)
       (if Suc w = length wl then {MSC_SW_TAG_LASTWIN} else {}) 0"

text \<open>
  The ring order after position \<open>b\<close> among \<open>n\<close>: \<open>b + 1\<close>, \<open>b + 2\<close> and so on,
  wrapping to 0 after \<open>n - 1\<close> and ending with \<open>b\<close> itself.
\<close>

definition ring_from :: "nat \<Rightarrow> nat \<Rightarrow> nat list" where
  "ring_from b n = map (\<lambda>j. Suc (b + j) mod n) [0..<n]"

text \<open>
  The ring order from position \<open>b\<close> among \<open>n\<close>, starting with \<open>b\<close> itself; and the
  front of a list up to and including its first element with the property \<open>P\<close>.
\<close>

definition ring_at :: "nat \<Rightarrow> nat \<Rightarrow> nat list" where
  "ring_at b n = map (\<lambda>j. (b + j) mod n) [0..<n]"

definition take_until :: "('a \<Rightarrow> bool) \<Rightarrow> 'a list \<Rightarrow> 'a list" where
  "take_until P xs = takeWhile (\<lambda>x. \<not> P x) xs @ take 1 (dropWhile (\<lambda>x. \<not> P x) xs)"

text \<open>
  The iterator as it enters window \<open>w\<close>, in \<open>msc_iter_win_start\<close> and in
  \<open>msc_iter_win_advance\<close> alike.
\<close>

definition iter_enter :: "msu_h \<Rightarrow> msc \<Rightarrow> msc_iter \<Rightarrow> nat \<Rightarrow> msc_iter" where
  "iter_enter H m it w = msc_iter_block_start H m (it\<lparr>win := w, start_block := - 1\<rparr>)"

text \<open>
  The visits a lap pays to window \<open>w\<close>, as (window, block, wrap counter). When the
  window's oldest block is wrap-flagged: that block with the counter at 2, then the
  blocks after it in ring order with the counter at 1, the last of them the oldest
  block again. Otherwise, with the counter at 0: the blocks in ring order from the
  oldest one, up to and including the first that is last-written.
\<close>

definition oldest_wrapped :: "msu_h \<Rightarrow> msc \<Rightarrow> nat \<Rightarrow> bool" where
  "oldest_wrapped H m w =
     msc_block_wrapped H
       (bdesc (block (win_list m ! w) ! msc_win_oldest_block H (win_list m ! w)))"

definition win_visits :: "msu_h \<Rightarrow> msc \<Rightarrow> nat \<Rightarrow> (nat \<times> nat \<times> nat) list" where
  "win_visits H m w =
     (let wn = win_list m ! w; s = msc_win_oldest_block H wn
      in if oldest_wrapped H m w
         then (w, s, 2) # map (\<lambda>b. (w, b, 1)) (ring_from s (nr_blocks wn))
         else map (\<lambda>b. (w, b, 0))
                (take_until (\<lambda>b. msc_block_last_written H (bdesc (block wn ! b)))
                   (ring_at s (nr_blocks wn))))"

text \<open>The visits of a whole lap that starts at window \<open>st\<close>.\<close>

definition lap_visits :: "msu_h \<Rightarrow> msc \<Rightarrow> nat \<Rightarrow> (nat \<times> nat \<times> nat) list" where
  "lap_visits H m st = concat (map (win_visits H m) (ring_at st (length (win_list m))))"

text \<open>The visits paid to block \<open>b\<close> of window \<open>w\<close>, in order.\<close>

definition visits_to :: "nat \<Rightarrow> nat \<Rightarrow> (nat \<times> nat \<times> nat) list \<Rightarrow> (nat \<times> nat \<times> nat) list" where
  "visits_to w b vs = filter (\<lambda>v. fst v = w \<and> fst (snd v) = b) vs"

text \<open>
  Putting visits in front of the result of a lap, and going on with a lap after a call
  of an advance function.
\<close>

definition lap_prepend ::
  "(nat \<times> nat \<times> nat) list \<Rightarrow> ((nat \<times> nat \<times> nat) list \<times> msc_iter) option
     \<Rightarrow> ((nat \<times> nat \<times> nat) list \<times> msc_iter) option" where
  "lap_prepend xs r = (case r of None \<Rightarrow> None | Some (vs, it) \<Rightarrow> Some (xs @ vs, it))"

definition lap_cont ::
  "nat \<Rightarrow> msu_h \<Rightarrow> msc \<Rightarrow> bool \<times> msc_iter \<Rightarrow> ((nat \<times> nat \<times> nat) list \<times> msc_iter) option" where
  "lap_cont k H m r = (if fst r then Some ([], snd r) else iter_lap k H m (snd r))"

text \<open>Two iterator states that stand in the same window of the same lap.\<close>

definition same_lap :: "msc_iter \<Rightarrow> msc_iter \<Rightarrow> bool" where
  "same_lap it it' = (win it' = win it \<and> start_win it' = start_win it \<and> eof it' = eof it)"

section \<open>Example states\<close>

text \<open>
  One instance of the header parameters, for the examples: a descriptor of 64 bytes in a
  page of 4096, the valid count in 32-bit words including the descriptor, bit 1 of
  \<open>hw_tag\<close> for a wrapped block and bit 3 for the end of the window.
\<close>

definition ex_hw :: msu_h where
  "ex_hw =
     \<lparr>msc_data_sz = (\<lambda>bd. if valid_dw bd = 0 then 0 else valid_dw bd * 4 - 64),
      msc_block_wrapped = (\<lambda>bd. odd (hw_tag bd div 2)),
      msc_block_last_written =
        (\<lambda>bd. odd (hw_tag bd div 8) \<or> (if valid_dw bd = 0 then 0 else valid_dw bd * 4 - 64) \<noteq> 4032),
      DATA_IN_PAGE = 4032, MSC_BDESC = 64\<rparr>"

definition ex_unallocated :: msc where
  "ex_unallocated = intel_th_msc_init msc_zeroed"

definition ex_idle :: msc where
  "ex_idle = ex_unallocated\<lparr>user_count := 0\<rparr>"

definition ex_used :: msc where
  "ex_used = ex_unallocated\<lparr>user_count := 2\<rparr>"

definition ex_single :: msc where
  "ex_single = ex_unallocated\<lparr>mode := MSC_MODE_SINGLE\<rparr>"

definition ex_ubuf :: ubuf where
  "ex_ubuf = \<lparr>ucap = 65536, ubytes = []\<rparr>"

text \<open>
  Two windows of one block each, both holding data, with the saved next-write address at
  the second window's block.
\<close>

definition ex_block :: "nat \<Rightarrow> nat \<Rightarrow> nat \<Rightarrow> msc_block" where
  "ex_block a tag dw = \<lparr>bdesc = zero_bdesc\<lparr>hw_tag := tag, valid_dw := dw\<rparr>, addr = a, payload = []\<rparr>"

definition ex_two_windows :: msc where
  "ex_two_windows =
     ex_unallocated
       \<lparr>win_list := [\<lparr>pgoff = 0, nr_blocks = 1, block = [ex_block 0x1000 0 1024]\<rparr>,
                    \<lparr>pgoff = 1, nr_blocks = 1, block = [ex_block 0x2000 0 1024]\<rparr>],
        nr_pages := 2, nwsa := 0x2000, user_count := 0\<rparr>"

text \<open>
  One window of two blocks: the first wrapped and half full, the second full.
\<close>

definition ex_wrapped :: msc where
  "ex_wrapped =
     ex_unallocated
       \<lparr>win_list := [\<lparr>pgoff = 0, nr_blocks = 2,
                      block = [ex_block 0x1000 2 512, ex_block 0x2000 0 1024]\<rparr>],
        nr_pages := 2, user_count := 0\<rparr>"

definition ex_iter :: msc_iter where
  "ex_iter = snd (msc_iter_win_start ex_hw ex_wrapped msc_iter_init)"

text \<open>
  An unallocated device in multi mode whose sixth allocation fails: for the request
  \<open>[2, 2]\<close> that is the second block of the second window.
\<close>

definition ex_failing :: msc where
  "ex_failing = ex_unallocated\<lparr>allocs := [True, True, True, True, True, False], next_dma := 0x10000\<rparr>"

text \<open>
  Two windows, of two blocks and of one block, on three consecutive pages, before
  linking.
\<close>

definition ex_unlinked :: msc where
  "ex_unlinked =
     ex_unallocated
       \<lparr>win_list := [\<lparr>pgoff = 0, nr_blocks = 2,
                      block = [ex_block 0x1000 0 0, ex_block 0x2000 0 0]\<rparr>,
                    \<lparr>pgoff = 2, nr_blocks = 1, block = [ex_block 0x3000 0 0]\<rparr>],
        nr_pages := 3\<rparr>"

text \<open>An idle multi-mode buffer and a single-mode device, both with a buffer to give up.\<close>

definition ex_single_idle :: msc where
  "ex_single_idle = ex_single\<lparr>user_count := 0, nr_pages := 4\<rparr>"

text \<open>
  A single-mode buffer of three pages, filled with 1, 2 and 3 page by page, that has
  wrapped and whose saved write offset is the start of the second page; and one of four
  pages that has not wrapped, with the write offset 100 bytes into the third page.
\<close>

definition ex_three_pages :: msc where
  "ex_three_pages =
     ex_single\<lparr>user_count := 0, nr_pages := 3, single_sz := 4096, single_wrap := True,
               base_mem := replicate 4096 1 @ replicate 4096 2 @ replicate 4096 3\<rparr>"

definition ex_four_pages :: msc where
  "ex_four_pages =
     ex_single\<lparr>user_count := 0, nr_pages := 4, single_sz := 8292, single_wrap := False,
               base_mem := replicate 8292 5 @ replicate 8092 0\<rparr>"


text \<open>
  Two windows with the saved next-write address at the second one. The first has three
  blocks: two wrapped, of which the second is the last written, and a full one. The
  second has two blocks, not wrapped, the second of them the last written.
\<close>

definition ex_lap :: msc where
  "ex_lap =
     ex_unallocated
       \<lparr>win_list := [\<lparr>pgoff = 0, nr_blocks = 3,
                      block = [ex_block 0x1000 2 1024, ex_block 0x2000 2 512,
                               ex_block 0x3000 0 1024]\<rparr>,
                    \<lparr>pgoff = 3, nr_blocks = 2,
                      block = [ex_block 0x4000 0 1024, ex_block 0x5000 0 100]\<rparr>],
        nr_pages := 5, nwsa := 0x4000, user_count := 0\<rparr>"

text \<open>
  A run in which a \<open>wrap_store\<close> overlaps the end of a capture. A buffer of one window
  with one block is set up and capture is started (\<open>ex_capture\<close>); the \<open>wrap_store\<close>
  loads the word with the flags there. Capture is stopped and a reader opens the device
  (\<open>ex_reader\<close>); then the \<open>wrap_store\<close> stores the word (\<open>ex_race\<close>).
\<close>

definition ex_buffer :: msc where
  "ex_buffer = snd (nr_pages_store kstrtoul_dec True ex_unallocated ''1'')"

definition ex_capture :: msc where
  "ex_capture = snd (intel_th_msc_activate ex_buffer)"

definition ex_reader :: msc where
  "ex_reader = snd (intel_th_msc_open True (intel_th_msc_deactivate ex_capture) 7)"

definition ex_race :: msc where
  "ex_race = wrap_unit_store (fst (wrap_unit_load ex_capture), True) ex_reader"

text \<open>One window of two blocks, the second of them above \<open>2 ^ 44\<close>, before linking.\<close>

definition ex_high :: msc where
  "ex_high =
     ex_unallocated
       \<lparr>win_list := [\<lparr>pgoff = 0, nr_blocks = 2,
                      block = [ex_block 0x1000 0 0, ex_block (2 ^ 44 + 0x2000) 0 0]\<rparr>],
        nr_pages := 2\<rparr>"

section \<open>Frame facts about freeing\<close>

lemma dma_free_fields [simp]:
  "dma_dev (dma_free_coherent dev m a) = dma_dev m"
  "dma_shared (dma_free_coherent dev m a) = dma_shared m"
  by (simp_all add: dma_free_coherent_def)

lemma given_back_shared [simp]: "dma_shared m \<Longrightarrow> given_back dev m A = A"
  by (auto simp: given_back_def)

lemma given_back_empty [simp]: "given_back dev m {} = {}"
  by (simp add: given_back_def)

lemma given_back_step:
  "dma_live (dma_free_coherent dev m a) - given_back dev (dma_free_coherent dev m a) A =
   dma_live m - given_back dev m (insert a A)"
  by (auto simp: dma_free_coherent_def given_back_def)

lemma fold_dma_free:
  "fold (\<lambda>i m. dma_free_coherent dev m (f i)) xs m =
     m\<lparr>dma_live := dma_live m - given_back dev m (f ` set xs)\<rparr>"
proof (induction xs arbitrary: m)
  case Nil
  show ?case by (simp add: given_back_def)
next
  case (Cons x xs)
  let ?m = "dma_free_coherent dev m (f x)"
  have "fold (\<lambda>i m. dma_free_coherent dev m (f i)) (x # xs) m =
        ?m\<lparr>dma_live := dma_live ?m - given_back dev ?m (f ` set xs)\<rparr>"
    by (simp add: Cons.IH)
  also have "\<dots> = ?m\<lparr>dma_live := dma_live m - given_back dev m (f ` set (x # xs))\<rparr>"
    unfolding given_back_step by simp
  also have "\<dots> = m\<lparr>dma_live := dma_live m - given_back dev m (f ` set (x # xs))\<rparr>"
    by (simp add: dma_free_coherent_def)
  finally show ?case .
qed

lemma win_free_head:
  "msc_buffer_win_free m 0 =
     m\<lparr>nr_pages := sub_ul (nr_pages m) (nr_blocks (win_list m ! 0)),
       win_list := tl (win_list m),
       base_addr := (if tl (win_list m) = [] then 0 else base_addr m),
       dma_live := dma_live m - given_back DEV_MSC m (win_addrs (win_list m ! 0))\<rparr>"
  by (simp add: msc_buffer_win_free_def Let_def fold_dma_free win_addrs_def drop_Suc given_back_def)

lemma fold_win_free:
  "length xs = length (win_list m) \<Longrightarrow>
   user_count (fold (\<lambda>_ m. msc_buffer_win_free m 0) xs m) = user_count m \<and>
   win_list (fold (\<lambda>_ m. msc_buffer_win_free m 0) xs m) = [] \<and>
   mode (fold (\<lambda>_ m. msc_buffer_win_free m 0) xs m) = mode m \<and>
   enabled (fold (\<lambda>_ m. msc_buffer_win_free m 0) xs m) = enabled m \<and>
   iter_list (fold (\<lambda>_ m. msc_buffer_win_free m 0) xs m) = iter_list m \<and>
   dma_shared (fold (\<lambda>_ m. msc_buffer_win_free m 0) xs m) = dma_shared m \<and>
   dma_dev (fold (\<lambda>_ m. msc_buffer_win_free m 0) xs m) = dma_dev m"
proof (induction xs arbitrary: m)
  case Nil
  then show ?case by simp
next
  case (Cons x xs)
  have "length xs = length (win_list (msc_buffer_win_free m 0))"
    using Cons.prems by (simp add: win_free_head)
  from Cons.IH [OF this] show ?case
    by (simp add: win_free_head)
qed

lemma multi_free_frame:
  "user_count (msc_buffer_multi_free m) = user_count m"
  "win_list (msc_buffer_multi_free m) = []"
  "mode (msc_buffer_multi_free m) = mode m"
  "enabled (msc_buffer_multi_free m) = enabled m"
  "iter_list (msc_buffer_multi_free m) = iter_list m"
  "dma_shared (msc_buffer_multi_free m) = dma_shared m"
  "dma_dev (msc_buffer_multi_free m) = dma_dev m"
  using fold_win_free [of "win_list m" m] by (simp_all add: msc_buffer_multi_free_def)

lemma fold_free_page:
  "fold (\<lambda>i m. free_page m (f i)) xs m = m\<lparr>dma_live := dma_live m - f ` set xs\<rparr>"
proof (induction xs arbitrary: m)
  case Nil
  show ?case by simp
next
  case (Cons x xs)
  have s: "dma_live m - {f x} - f ` set xs = dma_live m - insert (f x) (f ` set xs)"
    by auto
  have "fold (\<lambda>i m. free_page m (f i)) (x # xs) m =
        (free_page m (f x))\<lparr>dma_live := dma_live (free_page m (f x)) - f ` set xs\<rparr>"
    by (simp add: Cons.IH)
  also have "\<dots> = m\<lparr>dma_live := dma_live m - f ` set (x # xs)\<rparr>"
    by (simp add: free_page_def s)
  finally show ?case .
qed

lemma contig_free_pages:
  "msc_buffer_contig_free m =
     m\<lparr>dma_live := dma_live m -
           page_range (base_addr m) (((nr_pages m * 2 ^ PAGE_SHIFT) mod 2 ^ 64) div 2 ^ PAGE_SHIFT),
       nr_pages := 0\<rparr>"
  by (simp add: msc_buffer_contig_free_def fold_free_page page_range_def)

lemma buffer_free_frame:
  "user_count (msc_buffer_free m) = user_count m"
  "mode (msc_buffer_free m) = mode m"
  "enabled (msc_buffer_free m) = enabled m"
  "iter_list (msc_buffer_free m) = iter_list m"
  by (simp_all add: msc_buffer_free_def contig_free_pages multi_free_frame)

lemmas ex_defs =
  ex_unallocated_def ex_idle_def ex_used_def ex_single_def ex_ubuf_def
  intel_th_msc_init_def msc_zeroed_def

section \<open>What allocation leaves alone\<close>

lemma same_control_refl [simp]: "same_control m m"
  by (simp add: same_control_def)

lemma same_control_trans: "same_control a b \<Longrightarrow> same_control b c \<Longrightarrow> same_control a c"
  by (simp add: same_control_def)

lemma alloc_ok_control: "same_control m (snd (alloc_ok m))"
  by (simp add: alloc_ok_def same_control_def split: list.splits)

lemma dma_alloc_control: "same_control m (snd (dma_alloc_coherent dev m))"
  using alloc_ok_control [of m]
  by (auto simp: dma_alloc_coherent_def same_control_def split: prod.splits bool.splits)

lemma fold_dma_free_control:
  "same_control m (fold (\<lambda>b m. dma_free_coherent dev m (g b)) xs m)"
  by (simp add: fold_dma_free same_control_def)

lemma win_alloc_blocks_control: "same_control m (snd (win_alloc_blocks m n acc))"
proof (induction n arbitrary: m acc)
  case 0
  show ?case by simp
next
  case (Suc n)
  show ?case
  proof (cases "dma_alloc_coherent DEV_HOST m")
    case (Pair r m')
    with dma_alloc_control [of m DEV_HOST] have c: "same_control m m'" by simp
    show ?thesis
    proof (cases r)
      case None
      with Pair c show ?thesis
        using fold_dma_free_control [of m' DEV_MSC addr "rev acc"]
        by (auto intro: same_control_trans)
    next
      case (Some a)
      with Pair c Suc.IH [of m'] show ?thesis
        by (auto intro: same_control_trans)
    qed
  qed
qed

lemma win_alloc_control: "same_control m (snd (msc_buffer_win_alloc m nr))"
proof (cases "nr = 0")
  case True
  then show ?thesis by (simp add: msc_buffer_win_alloc_def)
next
  case False
  obtain ok m1 where a: "alloc_ok m = (ok, m1)" by (cases "alloc_ok m")
  with alloc_ok_control [of m] have c1: "same_control m m1" by simp
  obtain r m2 where b: "win_alloc_blocks m1 nr [] = (r, m2)" by (cases "win_alloc_blocks m1 nr []")
  with win_alloc_blocks_control [of m1 nr "[]"] have "same_control m1 m2" by simp
  with c1 have c2: "same_control m m2" by (rule same_control_trans)
  show ?thesis
    using False a b c1 c2
    by (cases ok; cases r) (auto simp: msc_buffer_win_alloc_def Let_def same_control_def)
qed

lemma win_free_control: "same_control m (msc_buffer_win_free m 0)"
  by (simp add: win_free_head same_control_def)

lemma multi_free_control: "same_control m (msc_buffer_multi_free m)"
  by (simp add: same_control_def multi_free_frame)

lemma buffer_free_control: "same_control m (msc_buffer_free m)"
  by (simp add: same_control_def buffer_free_frame)

lemma relink_fold_control:
  "same_control m (fold (\<lambda>w m. m\<lparr>win_list := (win_list m)[w := relink_win m w]\<rparr>) ws m)"
proof (induction ws arbitrary: m)
  case Nil
  show ?case by simp
next
  case (Cons w ws)
  have "same_control m (m\<lparr>win_list := (win_list m)[w := relink_win m w]\<rparr>)"
    by (simp add: same_control_def)
  with Cons.IH [of "m\<lparr>win_list := (win_list m)[w := relink_win m w]\<rparr>"] show ?case
    by (auto intro: same_control_trans)
qed

lemma relink_control: "same_control m (msc_buffer_relink m)"
  unfolding msc_buffer_relink_def by (rule relink_fold_control)

lemma multi_alloc_loop_control: "same_control m (snd (multi_alloc_loop m ps))"
proof (induction ps arbitrary: m)
  case Nil
  show ?case by simp
next
  case (Cons p ps)
  obtain r m' where a: "msc_buffer_win_alloc m (p mod 2 ^ 32) = (r, m')"
    by (cases "msc_buffer_win_alloc m (p mod 2 ^ 32)")
  with win_alloc_control [of m "p mod 2 ^ 32"] have c: "same_control m m'" by simp
  show ?case
  proof (cases r)
    case None
    with a c Cons.IH [of m'] show ?thesis
      by (auto intro: same_control_trans)
  next
    case (Some e)
    with a c multi_free_control [of m'] show ?thesis
      by (auto intro: same_control_trans)
  qed
qed

lemma multi_alloc_control: "same_control m (snd (msc_buffer_multi_alloc m ps))"
proof -
  obtain r m' where a: "multi_alloc_loop m ps = (r, m')" by (cases "multi_alloc_loop m ps")
  with multi_alloc_loop_control [of m ps] have c: "same_control m m'" by simp
  with a relink_control [of m'] show ?thesis
    by (cases r) (auto simp: msc_buffer_multi_alloc_def intro: same_control_trans)
qed

lemma alloc_pages_control: "same_control m (snd (alloc_pages order m))"
  using alloc_ok_control [of m]
  by (auto simp: alloc_pages_def same_control_def split: prod.splits bool.splits)

lemma contig_alloc_control: "same_control m (snd (msc_buffer_contig_alloc m sz))"
  using alloc_pages_control [of m "get_order sz"]
  by (auto simp: msc_buffer_contig_alloc_def same_control_def split: prod.splits option.splits)

text \<open>Allocation changes the usage counter at most, and only from \<open>-1\<close> to 0.\<close>

lemma buffer_alloc_session:
  "enabled (snd (msc_buffer_alloc m ps)) = enabled m \<and>
   iter_list (snd (msc_buffer_alloc m ps)) = iter_list m \<and>
   mode (snd (msc_buffer_alloc m ps)) = mode m"
proof -
  obtain r1 m1 where a: "msc_buffer_contig_alloc m ((ps ! 0 * 2 ^ PAGE_SHIFT) mod 2 ^ 64) = (r1, m1)"
    by (cases "msc_buffer_contig_alloc m ((ps ! 0 * 2 ^ PAGE_SHIFT) mod 2 ^ 64)")
  obtain r2 m2 where b: "msc_buffer_multi_alloc m ps = (r2, m2)"
    by (cases "msc_buffer_multi_alloc m ps")
  from a contig_alloc_control [of m "(ps ! 0 * 2 ^ PAGE_SHIFT) mod 2 ^ 64"]
  have c1: "same_control m m1" by simp
  from b multi_alloc_control [of m ps] have c2: "same_control m m2" by simp
  show ?thesis
    using a b c1 c2
    by (cases r1; cases r2) (auto simp: msc_buffer_alloc_def same_control_def)
qed

lemma free_unless_used_session:
  "enabled (snd (msc_buffer_unlocked_free_unless_used m)) = enabled m \<and>
   iter_list (snd (msc_buffer_unlocked_free_unless_used m)) = iter_list m \<and>
   mode (snd (msc_buffer_unlocked_free_unless_used m)) = mode m"
  by (simp add: msc_buffer_unlocked_free_unless_used_def Let_def buffer_free_frame)

text \<open>One round of the scan, with the results of its calls named.\<close>

lemma store_scan_unfold:
  assumes "alloc_ok m = (ok1, m1)"
    and "K (kstrndup buf p (case memchr buf p CHR '','' len of Some e \<Rightarrow> e - p | None \<Rightarrow> len)) = (ret, val)"
    and "alloc_ok m1 = (ok2, m2)"
    and "m3 = m2\<lparr>max_blocks := (if val > max_blocks m2 then val else max_blocks m2) mod 2 ^ 32\<rparr>"
  shows "store_scan K buf m p len wins =
     (if \<not> ok1 then Goto_free_win (Some ENOMEM) m1
      else if ret \<noteq> None \<or> val = 0 then Goto_free_win ret m1
      else if wins \<noteq> [] \<and> mode m1 = MSC_MODE_SINGLE then Goto_free_win (Some EINVAL) m1
      else if \<not> ok2 then Return_nomem m2
      else case memchr buf p CHR '','' len of
             None \<Rightarrow> Scanned (wins @ [val]) m3
           | Some e \<Rightarrow>
               if len - (e - p) \<noteq> 0
               then store_scan K buf m3 (e + 1) (len - (e - p)) (wins @ [val])
               else Scanned (wins @ [val]) m3)"
  using assms(1-3) unfolding assms(4)
  by (subst store_scan.simps) (simp split: bool.splits option.splits)

lemma store_scan_control: "same_control m (scan_msc (store_scan K buf m p len wins))"
proof (induction K buf m p len wins rule: store_scan.induct)
  case (1 K buf m p len wins)
  obtain ok1 m1 where a1: "alloc_ok m = (ok1, m1)" by (cases "alloc_ok m")
  with alloc_ok_control [of m] have c1: "same_control m m1" by simp
  obtain ok2 m2 where a2: "alloc_ok m1 = (ok2, m2)" by (cases "alloc_ok m1")
  with alloc_ok_control [of m1] c1 have c2: "same_control m m2"
    by (auto intro: same_control_trans)
  let ?e = "memchr buf p CHR '','' len"
  obtain ret val where k: "K (kstrndup buf p (case ?e of Some e \<Rightarrow> e - p | None \<Rightarrow> len)) = (ret, val)"
    by (cases "K (kstrndup buf p (case ?e of Some e \<Rightarrow> e - p | None \<Rightarrow> len))")
  define m3 where "m3 = m2\<lparr>max_blocks := (if val > max_blocks m2 then val else max_blocks m2) mod 2 ^ 32\<rparr>"
  have c3: "same_control m m3"
    using c2 by (simp add: same_control_def m3_def)
  note unf = store_scan_unfold [where K = K and buf = buf and p = p and len = len and wins = wins,
      OF a1 k a2 m3_def]
  show ?case
  proof (cases "ok1 \<and> ret = None \<and> val \<noteq> 0 \<and> \<not> (wins \<noteq> [] \<and> mode m1 = MSC_MODE_SINGLE) \<and> ok2")
    case False
    then show ?thesis
      using c1 c2 unfolding unf by auto
  next
    case True
    show ?thesis
    proof (cases ?e)
      case None
      with True c1 c3 show ?thesis
        unfolding unf by auto
    next
      case (Some e)
      show ?thesis
      proof (cases "len - (e - p) \<noteq> 0")
        case False
        with Some True c1 c3 show ?thesis
          unfolding unf by auto
      next
        case nz: True
        have eq: "store_scan K buf m p len wins =
                  store_scan K buf m3 (e + 1) (len - (e - p)) (wins @ [val])"
          using Some True nz unfolding unf by auto
        have "same_control m3 (scan_msc (store_scan K buf m3 (e + 1) (len - (e - p)) (wins @ [val])))"
          using "1.IH" Some True a1 a2 k nz
          by (auto simp: m3_def)
        with c3 eq show ?thesis
          by (auto intro: same_control_trans)
      qed
    qed
  qed
qed

section \<open>Reading without a buffer\<close>

text \<open>
  C10. A sequential read issued while no buffer is allocated (usage counter negative)
  returns 0, as at the end of the data, and not an error; the file position, the
  device, the iterator and the reader's buffer are as before.
\<close>

theorem read_without_buffer:
  "user_count m < 0 \<Longrightarrow> intel_th_msc_read fuel H m it u len ppos = Some (Inr 0, m, it, u, ppos)"
  by (simp add: intel_th_msc_read_def user_count_inc_unless_negative_def)

theorem read_without_buffer_witness:
  "user_count ex_unallocated < 0 \<and>
   intel_th_msc_read 0 ex_hw ex_unallocated msc_iter_init ex_ubuf 512 0 =
     Some (Inr 0, ex_unallocated, msc_iter_init, ex_ubuf, 0)"
proof -
  have h: "user_count ex_unallocated < 0"
    by (simp add: ex_defs)
  from read_without_buffer [OF h] h show ?thesis
    by simp
qed

section \<open>The oldest window\<close>

lemma scan_candidate_0:
  "scan_candidate H a (w # ws) found 0 =
     (\<not> msc_block_is_empty H (bdesc (block w ! 0)) \<and> (found \<noteq> 0 \<or> addr (block w ! 0) = a))"
  by (simp add: scan_candidate_def)

lemma bex_upt: "(\<exists>i \<in> set [0..<n]. P i) = (\<exists>i<n. P i)"
  unfolding set_upt by auto

lemma scan_candidate_Suc:
  "scan_candidate H a (w # ws) found (Suc k) =
     scan_candidate H a ws (if addr (block w ! 0) = a then found + 1 else found) k"
proof -
  have "(\<exists>i<Suc (Suc k). addr (block ((w # ws) ! i) ! 0) = a) =
        (addr (block w ! 0) = a \<or> (\<exists>i<Suc k. addr (block (ws ! i) ! 0) = a))"
    (is "?L = ?R")
  proof
    assume ?L
    then obtain i where i: "i < Suc (Suc k)" "addr (block ((w # ws) ! i) ! 0) = a"
      by blast
    show ?R
    proof (cases i)
      case 0
      with i show ?thesis by simp
    next
      case (Suc j)
      with i have "j < Suc k" "addr (block (ws ! j) ! 0) = a" by simp_all
      then show ?thesis by blast
    qed
  next
    assume ?R
    then show ?L
    proof
      assume "addr (block w ! 0) = a"
      then have "0 < Suc (Suc k)" "addr (block ((w # ws) ! 0) ! 0) = a" by simp_all
      then show ?L by blast
    next
      assume "\<exists>i<Suc k. addr (block (ws ! i) ! 0) = a"
      then obtain j where "j < Suc k" "addr (block (ws ! j) ! 0) = a" by blast
      then have "Suc j < Suc (Suc k)" "addr (block ((w # ws) ! Suc j) ! 0) = a" by simp_all
      then show ?L by blast
    qed
  qed
  then show ?thesis
    unfolding scan_candidate_def bex_upt by simp
qed

lemma oldest_scan_Some:
  "oldest_scan H a ws i found = Some r \<Longrightarrow>
   \<exists>k<length ws. r = i + k \<and> scan_candidate H a ws found k \<and>
                 (\<forall>k'<k. \<not> scan_candidate H a ws found k')"
proof (induction ws arbitrary: i found)
  case Nil
  then show ?case by simp
next
  case (Cons w ws)
  let ?f = "if addr (block w ! 0) = a then found + 1 else found"
  show ?case
  proof (cases "scan_candidate H a (w # ws) found 0")
    case True
    then have "oldest_scan H a (w # ws) i found = Some i"
      by (auto simp: scan_candidate_0 Let_def)
    with Cons.prems have "r = i" by simp
    with True show ?thesis by auto
  next
    case False
    then have "oldest_scan H a (w # ws) i found = oldest_scan H a ws (i + 1) ?f"
      by (auto simp: scan_candidate_0 Let_def)
    with Cons.prems have "oldest_scan H a ws (i + 1) ?f = Some r" by simp
    from Cons.IH [OF this] obtain k where k: "k < length ws" "r = i + 1 + k"
      "scan_candidate H a ws ?f k" "\<forall>k'<k. \<not> scan_candidate H a ws ?f k'"
      by blast
    have "\<forall>k'<Suc k. \<not> scan_candidate H a (w # ws) found k'"
    proof (intro allI impI)
      fix k' assume "k' < Suc k"
      then show "\<not> scan_candidate H a (w # ws) found k'"
        using False k(4) by (cases k') (simp_all add: scan_candidate_Suc)
    qed
    moreover have "scan_candidate H a (w # ws) found (Suc k)"
      using k(3) by (simp add: scan_candidate_Suc)
    ultimately show ?thesis
      using k(1,2) by (intro exI [of _ "Suc k"]) simp
  qed
qed

lemma oldest_scan_None:
  "oldest_scan H a ws i found = None \<Longrightarrow> k < length ws \<Longrightarrow> \<not> scan_candidate H a ws found k"
proof (induction ws arbitrary: i found k)
  case Nil
  then show ?case by simp
next
  case (Cons w ws)
  let ?f = "if addr (block w ! 0) = a then found + 1 else found"
  have no0: "\<not> scan_candidate H a (w # ws) found 0"
    using Cons.prems(1) by (auto simp: scan_candidate_0 Let_def split: if_splits)
  then have "oldest_scan H a (w # ws) i found = oldest_scan H a ws (i + 1) ?f"
    by (auto simp: scan_candidate_0 Let_def)
  with Cons.prems have rest: "oldest_scan H a ws (i + 1) ?f = None" by simp
  show ?case
  proof (cases k)
    case 0
    with no0 show ?thesis by simp
  next
    case (Suc j)
    with Cons.prems have "j < length ws" by simp
    from Cons.IH [OF rest this] Suc show ?thesis
      by (simp add: scan_candidate_Suc)
  qed
qed

lemma oldest_candidate_scan:
  "oldest_candidate H m j = scan_candidate H (next_write_addr m) (win_list m) 0 j"
  by (simp add: oldest_candidate_def scan_candidate_def del: upt_Suc)

text \<open>
  C3, as amended. For a non-empty window list \<open>msc_oldest_window\<close> returns a window of
  the list: the first window, in list order, whose first block is not empty and that is
  the window whose first block sits at the next-write address or comes after it; when no
  window is such, the first window of the list.
\<close>

theorem oldest_window_at_or_after:
  "win_list m \<noteq> [] \<Longrightarrow>
   \<exists>r. msc_oldest_window H m = Some r \<and> r < length (win_list m) \<and>
       (if \<exists>j<length (win_list m). oldest_candidate H m j
        then oldest_candidate H m r \<and> (\<forall>j<r. \<not> oldest_candidate H m j)
        else r = 0)"
proof (cases "oldest_scan H (next_write_addr m) (win_list m) 0 0")
  case None
  assume ne: "win_list m \<noteq> []"
  with None have "msc_oldest_window H m = Some 0"
    by (simp add: msc_oldest_window_def)
  moreover have "\<not> (\<exists>j<length (win_list m). oldest_candidate H m j)"
    using oldest_scan_None [OF None] by (simp add: oldest_candidate_scan)
  ultimately show ?thesis
    using ne by simp
next
  case (Some r)
  assume ne: "win_list m \<noteq> []"
  with Some have res: "msc_oldest_window H m = Some r"
    by (simp add: msc_oldest_window_def)
  from oldest_scan_Some [OF Some] have "r < length (win_list m)"
    and "oldest_candidate H m r" and "\<forall>j<r. \<not> oldest_candidate H m j"
    by (auto simp: oldest_candidate_scan)
  with res show ?thesis by auto
qed

theorem oldest_window_at_or_after_witness:
  "win_list ex_two_windows \<noteq> [] \<and>
   (\<exists>r. msc_oldest_window ex_hw ex_two_windows = Some r \<and> r < length (win_list ex_two_windows) \<and>
        oldest_candidate ex_hw ex_two_windows r)"
proof -
  have ne: "win_list ex_two_windows \<noteq> []"
    by (simp add: ex_two_windows_def)
  have "oldest_candidate ex_hw ex_two_windows 1"
    by (simp add: oldest_candidate_def ex_two_windows_def ex_defs ex_hw_def ex_block_def
        msc_block_is_empty_def zero_bdesc_def next_write_addr_def)
  moreover have "(1::nat) < length (win_list ex_two_windows)"
    by (simp add: ex_two_windows_def)
  ultimately have "\<exists>j<length (win_list ex_two_windows). oldest_candidate ex_hw ex_two_windows j"
    by blast
  with oldest_window_at_or_after [OF ne, of ex_hw] ne show ?thesis
    by auto
qed

text \<open>
  C3 as stated fails: with two windows that both hold data and the next-write address at
  the second one, no window comes strictly after the matching one, so the first window
  of the list would be the answer; \<open>msc_oldest_window\<close> returns the second, the
  matching window itself.
\<close>

theorem oldest_window_strict_counterexample:
  "msc_oldest_window ex_hw ex_two_windows = Some 1 \<and>
   \<not> oldest_candidate_strict ex_hw ex_two_windows 0 \<and>
   \<not> oldest_candidate_strict ex_hw ex_two_windows 1"
  by (simp add: msc_oldest_window_def oldest_candidate_strict_def ex_two_windows_def ex_defs
      ex_hw_def ex_block_def msc_block_is_empty_def zero_bdesc_def next_write_addr_def)

section \<open>The length of a copy\<close>

lemma sub_mod_aux:
  fixes a b N :: nat
  assumes "b \<le> a" and "a < N"
  shows "(N + a - b mod N) mod N = a - b"
proof -
  have "b mod N = b"
    using assms by simp
  moreover have "N + a - b = N + (a - b)"
    using assms(1) by simp
  moreover have "(N + (a - b)) mod N = a - b"
    using assms(2) by (simp add: less_imp_diff_less)
  ultimately show ?thesis by simp
qed

lemma sub_ul_eq: "b \<le> a \<Longrightarrow> a < 2 ^ 64 \<Longrightarrow> sub_ul a b = a - b"
  unfolding sub_ul_def by (rule sub_mod_aux)

text \<open>
  C2. In a round of \<open>msc_buffer_iterate\<close> the callback is handed a length computed as
  follows. When the iterator stands on the starting block with the wrap counter at 2,
  the segment is the tail: \<open>DATA_IN_PAGE\<close> minus the valid byte count, starting just
  past the valid bytes. On every other visit the segment is the valid bytes of the
  block. In both cases the length is the segment's size less the iterator's offset into
  the block, capped at the length the caller asked for, and the source is the start of
  the segment plus that offset. An empty segment is skipped without a call.
\<close>

theorem copy_length:
  assumes "msc_data_sz H (msc_iter_bdesc m it) \<le> DATA_IN_PAGE H"
    and "DATA_IN_PAGE H < 2 ^ 64"
    and "block_off it \<le> segment H m it"
  shows "snd (snd (snd (iterate_round H m (log_fn r) (it, len, d)))) =
         (if segment H m it = 0 then d
          else d @ [(\<lparr>src_win = win it, src_blk = nat (block_it it),
                       src_off = segment_start H m it + block_off it\<rparr>,
                     min len (segment H m it - block_off it))])"
proof -
  let ?db = "msc_data_sz H (msc_iter_bdesc m it)"
  have seg: "(if block_it it = start_block it \<and> wrap_count it = 2
              then sub_ul (DATA_IN_PAGE H) ?db else ?db) = segment H m it"
    using assms(1,2) by (simp add: segment_def on_tail_def sub_ul_eq)
  have "DATA_IN_PAGE H - ?db \<le> DATA_IN_PAGE H"
    by simp
  then have lt: "segment H m it < 2 ^ 64"
    using assms(1,2) unfolding segment_def by (auto simp only: split: if_splits)
  have off: "sub_ul (segment H m it) (block_off it) = segment H m it - block_off it"
    using assms(3) lt by (simp add: sub_ul_eq)
  have start: "(if block_it it = start_block it \<and> wrap_count it = 2
                then MSC_BDESC H + ?db else MSC_BDESC H) = segment_start H m it"
    by (simp add: segment_start_def on_tail_def)
  show ?thesis
  proof (cases "segment H m it = 0")
    case True
    then show ?thesis
      by (simp add: iterate_round_def Let_def seg split: prod.splits)
  next
    case False
    then show ?thesis
      by (simp add: iterate_round_def Let_def seg off start log_fn_def min_def split: prod.splits)
  qed
qed

lemma ex_iter_eq:
  "ex_iter = \<lparr>start_win = Some 0, win = 0, offset = 0, start_block = 0, block_it = 0,
              block_off = 0, wrap_count = 2, eof = 0\<rparr>"
  by (simp add: ex_iter_def msc_iter_win_start_def msc_iter_init_def msc_oldest_window_def
      msc_iter_block_start_def msc_win_oldest_block_def last_written_scan.simps
      msc_iter_bdesc_def ex_wrapped_def ex_defs ex_hw_def ex_block_def zero_bdesc_def
      msc_block_is_empty_def next_write_addr_def Let_def)

theorem copy_length_witness:
  "msc_data_sz ex_hw (msc_iter_bdesc ex_wrapped ex_iter) \<le> DATA_IN_PAGE ex_hw \<and>
   DATA_IN_PAGE ex_hw < 2 ^ 64 \<and>
   block_off ex_iter \<le> segment ex_hw ex_wrapped ex_iter \<and>
   snd (snd (snd (iterate_round ex_hw ex_wrapped (log_fn (\<lambda>s n. 0)) (ex_iter, 100, [])))) =
     [(\<lparr>src_win = 0, src_blk = 0, src_off = 2048\<rparr>, 100)]"
proof -
  have bd: "msc_iter_bdesc ex_wrapped ex_iter = zero_bdesc\<lparr>hw_tag := 2, valid_dw := 512\<rparr>"
    by (simp add: ex_iter_eq msc_iter_bdesc_def ex_wrapped_def ex_block_def)
  have h1: "msc_data_sz ex_hw (msc_iter_bdesc ex_wrapped ex_iter) \<le> DATA_IN_PAGE ex_hw"
    by (simp add: bd ex_hw_def)
  have h2: "DATA_IN_PAGE ex_hw < 2 ^ 64"
    by (simp add: ex_hw_def)
  have sg: "segment ex_hw ex_wrapped ex_iter = 2048"
    by (simp add: segment_def bd) (simp add: ex_hw_def ex_iter_eq on_tail_def)
  have st: "segment_start ex_hw ex_wrapped ex_iter = 2048"
    by (simp add: segment_start_def bd) (simp add: ex_hw_def ex_iter_eq on_tail_def)
  have h3: "block_off ex_iter \<le> segment ex_hw ex_wrapped ex_iter"
    by (simp add: sg ex_iter_eq)
  have "snd (snd (snd (iterate_round ex_hw ex_wrapped (log_fn (\<lambda>s n. 0)) (ex_iter, 100, [])))) =
     [(\<lparr>src_win = 0, src_blk = 0, src_off = 2048\<rparr>, 100)]"
    unfolding copy_length [OF h1 h2 h3] sg st by (simp add: ex_iter_eq)
  with h1 h2 h3 show ?thesis by blast
qed

section \<open>A failed multi-mode allocation is rolled back\<close>






text \<open>Freeing all windows gives back exactly their blocks.\<close>

lemma fold_win_free_live:
  "length xs = length (win_list m) \<Longrightarrow>
   dma_live (fold (\<lambda>_ m. msc_buffer_win_free m 0) xs m) =
     dma_live m - given_back DEV_MSC m (wins_live m)"
proof (induction xs arbitrary: m)
  case Nil
  then show ?case by (simp add: wins_live_def)
next
  case (Cons x xs)
  then obtain w ws where wl: "win_list m = w # ws"
    by (cases "win_list m") auto
  let ?m1 = "msc_buffer_win_free m 0"
  have l1: "win_list ?m1 = ws" "dma_live ?m1 = dma_live m - given_back DEV_MSC m (win_addrs w)"
    "dma_dev ?m1 = dma_dev m" "dma_shared ?m1 = dma_shared m"
    using wl by (simp_all add: win_free_head)
  have "length xs = length (win_list ?m1)"
    using Cons.prems wl l1 by simp
  from Cons.IH [OF this]
  have "dma_live (fold (\<lambda>_ m. msc_buffer_win_free m 0) xs ?m1) =
        dma_live ?m1 - given_back DEV_MSC ?m1 (wins_live ?m1)" .
  also have "\<dots> = dma_live m - given_back DEV_MSC m (wins_live m)"
    using l1 wl by (auto simp: wins_live_def given_back_def)
  finally show ?case by simp
qed

lemma multi_free_given_back:
  "dma_live (msc_buffer_multi_free m) = dma_live m - given_back DEV_MSC m (wins_live m)"
  unfolding msc_buffer_multi_free_def by (rule fold_win_free_live) simp








text \<open>Which allocations a call makes, and when the script lets one of them fail.\<close>

lemma script_fails_simps [simp]: "script_fails xs 0 = False" "script_fails [] n = False"
  by (simp_all add: script_fails_def)

lemma script_fails_add:
  "script_fails xs (a + b) = (script_fails xs a \<or> script_fails (drop a xs) b)"
  by (auto simp: script_fails_def take_add)

lemma script_fails_Suc:
  "script_fails xs (Suc n) = (script_fails xs 1 \<or> script_fails (drop 1 xs) n)"
  using script_fails_add [of xs 1 n] by simp

lemma alloc_ok_script:
  "fst (alloc_ok m) = (\<not> script_fails (allocs m) 1)"
  "allocs (snd (alloc_ok m)) = drop 1 (allocs m)"
  by (auto simp: alloc_ok_def script_fails_def split: list.splits)

lemma dma_alloc_script:
  "(fst (dma_alloc_coherent dev m) = None) = script_fails (allocs m) 1"
  "allocs (snd (dma_alloc_coherent dev m)) = drop 1 (allocs m)"
  using alloc_ok_script [of m]
  by (auto simp: dma_alloc_coherent_def split: prod.splits bool.splits)

lemma win_alloc_blocks_script:
  "(fst (win_alloc_blocks m n acc) = None) = script_fails (allocs m) n \<and>
   (fst (win_alloc_blocks m n acc) \<noteq> None \<longrightarrow>
      allocs (snd (win_alloc_blocks m n acc)) = drop n (allocs m))"
proof (induction n arbitrary: m acc)
  case 0
  show ?case by simp
next
  case (Suc n)
  obtain r m1 where a: "dma_alloc_coherent DEV_HOST m = (r, m1)"
    by (cases "dma_alloc_coherent DEV_HOST m")
  with dma_alloc_script [of DEV_HOST m]
  have s: "(r = None) = script_fails (allocs m) 1" "allocs m1 = drop 1 (allocs m)"
    by simp_all
  show ?case
  proof (cases r)
    case None
    with a s show ?thesis
      by (simp add: script_fails_Suc [of _ n])
  next
    case (Some x)
    with a have "win_alloc_blocks m (Suc n) acc =
                 win_alloc_blocks m1 n (acc @ [\<lparr>bdesc = zero_bdesc, addr = x, payload = []\<rparr>])"
      by simp
    with Suc.IH [of m1 "acc @ [\<lparr>bdesc = zero_bdesc, addr = x, payload = []\<rparr>]"] s Some
    show ?thesis
      by (auto simp: script_fails_Suc [of _ n])
  qed
qed

lemma win_alloc_script:
  "(fst (msc_buffer_win_alloc m nr) \<noteq> None) = script_fails (allocs m) (win_allocs nr) \<and>
   (fst (msc_buffer_win_alloc m nr) = None \<longrightarrow>
      allocs (snd (msc_buffer_win_alloc m nr)) = drop (win_allocs nr) (allocs m))"
proof (cases "nr = 0")
  case True
  then show ?thesis by (simp add: msc_buffer_win_alloc_def win_allocs_def)
next
  case False
  obtain ok m1 where a: "alloc_ok m = (ok, m1)" by (cases "alloc_ok m")
  with alloc_ok_script [of m]
  have s1: "ok = (\<not> script_fails (allocs m) 1)" "allocs m1 = drop 1 (allocs m)"
    by simp_all
  obtain rb m2 where b: "win_alloc_blocks m1 nr [] = (rb, m2)"
    by (cases "win_alloc_blocks m1 nr []")
  with win_alloc_blocks_script [of m1 nr "[]"] s1(2)
  have s2: "(rb = None) = script_fails (drop 1 (allocs m)) nr"
    "rb \<noteq> None \<longrightarrow> allocs m2 = drop (Suc nr) (allocs m)"
    by auto
  show ?thesis
    using False a b s1 s2
    by (cases ok; cases rb)
      (auto simp: msc_buffer_win_alloc_def win_allocs_def Let_def script_fails_Suc [of _ nr])
qed

lemma multi_alloc_loop_script:
  "(fst (multi_alloc_loop m ps) \<noteq> None) = script_fails (allocs m) (allocs_needed ps)"
proof (induction ps arbitrary: m)
  case Nil
  show ?case by (simp add: allocs_needed_def)
next
  case (Cons p ps)
  obtain r m1 where a: "msc_buffer_win_alloc m (p mod 2 ^ 32) = (r, m1)"
    by (cases "msc_buffer_win_alloc m (p mod 2 ^ 32)")
  with win_alloc_script [of m "p mod 2 ^ 32"]
  have s: "(r \<noteq> None) = script_fails (allocs m) (win_allocs (p mod 2 ^ 32))"
    "r = None \<longrightarrow> allocs m1 = drop (win_allocs (p mod 2 ^ 32)) (allocs m)"
    by simp_all
  have n: "allocs_needed (p # ps) = win_allocs (p mod 2 ^ 32) + allocs_needed ps"
    by (simp add: allocs_needed_def)
  show ?case
  proof (cases r)
    case None
    with a Cons.IH [of m1] s show ?thesis
      unfolding n script_fails_add by simp
  next
    case (Some e)
    with a s show ?thesis
      unfolding n script_fails_add by simp
  qed
qed

text \<open>The outcome of \<open>msc_buffer_alloc\<close> on an unallocated multi-mode device.\<close>

lemma multi_alloc_succeeds:
  assumes "mode m = MSC_MODE_MULTI" and "user_count m = - 1"
    and "\<not> script_fails (allocs m) (allocs_needed ps)"
  shows "fst (msc_buffer_alloc m ps) = None \<and> user_count (snd (msc_buffer_alloc m ps)) = 0"
proof -
  obtain r1 m1 where l: "multi_alloc_loop m ps = (r1, m1)"
    by (cases "multi_alloc_loop m ps")
  with multi_alloc_loop_script [of m ps] assms(3) have r1: "r1 = None" by simp
  have "user_count m1 = - 1"
    using multi_alloc_loop_control [of m ps] l assms(2) by (simp add: same_control_def)
  then have "user_count (msc_buffer_relink m1) = - 1"
    using relink_control [of m1] by (simp add: same_control_def)
  with l r1 assms(1,2) show ?thesis
    by (simp add: msc_buffer_alloc_def msc_buffer_multi_alloc_def)
qed




text \<open>
  On a platform that does not let the output device stand for the device the blocks were
  allocated for, the same failed call leaves the three blocks it had allocated.
\<close>

lemma win_alloc_blocks_numeral:
  "win_alloc_blocks m (numeral k) acc =
     (case dma_alloc_coherent DEV_HOST m of
        (None, m') \<Rightarrow> (None, fold (\<lambda>b m. dma_free_coherent DEV_MSC m (addr b)) (rev acc) m')
      | (Some a, m') \<Rightarrow>
          win_alloc_blocks m' (pred_numeral k) (acc @ [\<lparr>bdesc = zero_bdesc, addr = a, payload = []\<rparr>]))"
  by (simp add: numeral_eq_Suc)

lemma rollback_other_device:
  "dma_live (snd (msc_buffer_alloc (ex_failing\<lparr>dma_shared := False\<rparr>) [2, 2])) =
     {0x10000, 0x11000, 0x12000}"
  by (simp add: ex_failing_def ex_defs msc_buffer_alloc_def msc_buffer_multi_alloc_def
      msc_buffer_win_alloc_def dma_alloc_coherent_def alloc_ok_def Let_def PAGE_SIZE_def
      PAGE_SHIFT_def msc_buffer_multi_free_def win_free_head win_alloc_blocks_numeral
      dma_free_coherent_def given_back_def win_addrs_def) auto

section \<open>The topology that relinking builds\<close>

text \<open>The block loop rewrites the descriptors from \<open>s\<close> on and nothing else.\<close>

lemma relink_blocks_spec:
  assumes "nr_blocks wn = length (block wn)"
  shows "nr_blocks (relink_blocks nw wn t s) = nr_blocks wn \<and>
         pgoff (relink_blocks nw wn t s) = pgoff wn \<and>
         length (block (relink_blocks nw wn t s)) = length (block wn) \<and>
         (\<forall>i<length (block wn).
            addr (block (relink_blocks nw wn t s) ! i) = addr (block wn ! i) \<and>
            payload (block (relink_blocks nw wn t s) ! i) = payload (block wn ! i) \<and>
            bdesc (block (relink_blocks nw wn t s) ! i) =
              (if i < s then bdesc (block wn ! i) else link_bdesc nw wn t i))"
  using assms
proof (induction nw wn t s rule: relink_blocks.induct)
  case (1 nw wn tag blk)
  show ?case
  proof (cases "blk < nr_blocks wn")
    case False
    then show ?thesis
      using "1.prems" by (subst relink_blocks.simps, subst (2) relink_blocks.simps,
          subst (3) relink_blocks.simps, subst (4) relink_blocks.simps,
          subst (5) relink_blocks.simps, subst (6) relink_blocks.simps) auto
  next
    case True
    define last where "last = (blk = nr_blocks wn - 1)"
    define tag' where "tag' = (if last then insert MSC_SW_TAG_LASTBLK tag else tag)"
    define nb where "nb = (if last then addr (block wn ! 0) div 2 ^ PAGE_SHIFT
                           else addr (block wn ! (blk + 1)) div 2 ^ PAGE_SHIFT)"
    define bd where "bd = zero_bdesc\<lparr>next_win := (nw div 2 ^ PAGE_SHIFT) mod 2 ^ 32,
                            next_blk := nb mod 2 ^ 32,
                            sw_tag := tag', block_sz := PAGE_SIZE div 64\<rparr>"
    define wn' where "wn' = wn\<lparr>block := (block wn)[blk := (block wn ! blk)\<lparr>bdesc := bd\<rparr>]\<rparr>"
    have step: "relink_blocks nw wn tag blk = relink_blocks nw wn' tag' (blk + 1)"
      using True by (subst relink_blocks.simps)
        (simp add: Let_def last_def tag'_def nb_def bd_def wn'_def)
    have wf': "nr_blocks wn' = length (block wn')"
      using "1.prems" by (simp add: wn'_def)
    have ih: "nr_blocks (relink_blocks nw wn' tag' (blk + 1)) = nr_blocks wn' \<and>
         pgoff (relink_blocks nw wn' tag' (blk + 1)) = pgoff wn' \<and>
         length (block (relink_blocks nw wn' tag' (blk + 1))) = length (block wn') \<and>
         (\<forall>i<length (block wn').
            addr (block (relink_blocks nw wn' tag' (blk + 1)) ! i) = addr (block wn' ! i) \<and>
            payload (block (relink_blocks nw wn' tag' (blk + 1)) ! i) = payload (block wn' ! i) \<and>
            bdesc (block (relink_blocks nw wn' tag' (blk + 1)) ! i) =
              (if i < blk + 1 then bdesc (block wn' ! i) else link_bdesc nw wn' tag' i))"
      using "1.IH" [OF True last_def tag'_def nb_def bd_def] wf'
      by (simp add: wn'_def)
    have len: "length (block wn') = length (block wn)" "nr_blocks wn' = nr_blocks wn"
      "pgoff wn' = pgoff wn"
      by (simp_all add: wn'_def)
    have addr': "\<And>i. i < length (block wn) \<Longrightarrow> addr (block wn' ! i) = addr (block wn ! i)"
      and pay': "\<And>i. i < length (block wn) \<Longrightarrow> payload (block wn' ! i) = payload (block wn ! i)"
      using True "1.prems" by (auto simp: wn'_def nth_list_update)
    have bd_blk: "bdesc (block wn' ! blk) = link_bdesc nw wn tag blk"
    proof -
      have "bdesc (block wn' ! blk) = bd"
        using True "1.prems" by (simp add: wn'_def)
      moreover have "nb = addr (block wn ! (Suc blk mod nr_blocks wn)) div 2 ^ PAGE_SHIFT"
        using True by (auto simp: nb_def last_def)
      moreover have "tag' = (if Suc blk = nr_blocks wn then insert MSC_SW_TAG_LASTBLK tag else tag)"
        using True by (auto simp: tag'_def last_def)
      ultimately show ?thesis
        by (simp add: bd_def link_bdesc_def)
    qed
    have bd_other: "\<And>i. i < length (block wn) \<Longrightarrow> i \<noteq> blk \<Longrightarrow>
                       bdesc (block wn' ! i) = bdesc (block wn ! i)"
      using True "1.prems" by (auto simp: wn'_def nth_list_update)
    have link': "\<And>i. blk < i \<Longrightarrow> i < length (block wn) \<Longrightarrow>
                    link_bdesc nw wn' tag' i = link_bdesc nw wn tag i"
    proof -
      fix i assume i: "blk < i" "i < length (block wn)"
      then have nl: "\<not> last"
        using "1.prems" by (auto simp: last_def)
      have "0 < length (block wn)"
        using i(2) by (cases "block wn") simp_all
      then have "Suc i mod nr_blocks wn < length (block wn)"
        using "1.prems" by simp
      then have "addr (block wn' ! (Suc i mod nr_blocks wn)) = addr (block wn ! (Suc i mod nr_blocks wn))"
        by (rule addr')
      with nl show "link_bdesc nw wn' tag' i = link_bdesc nw wn tag i"
        by (simp add: link_bdesc_def len tag'_def)
    qed
    show ?thesis
      unfolding step
    proof (intro conjI allI impI)
      show "nr_blocks (relink_blocks nw wn' tag' (blk + 1)) = nr_blocks wn"
        using ih len by simp
      show "pgoff (relink_blocks nw wn' tag' (blk + 1)) = pgoff wn"
        using ih len by simp
      show "length (block (relink_blocks nw wn' tag' (blk + 1))) = length (block wn)"
        using ih len by simp
    next
      fix i assume i: "i < length (block wn)"
      show "addr (block (relink_blocks nw wn' tag' (blk + 1)) ! i) = addr (block wn ! i)"
        using ih len i addr' by simp
      show "payload (block (relink_blocks nw wn' tag' (blk + 1)) ! i) = payload (block wn ! i)"
        using ih len i pay' by simp
      have b: "bdesc (block (relink_blocks nw wn' tag' (blk + 1)) ! i) =
               (if i < blk + 1 then bdesc (block wn' ! i) else link_bdesc nw wn' tag' i)"
        using ih len i by simp
      show "bdesc (block (relink_blocks nw wn' tag' (blk + 1)) ! i) =
            (if i < blk then bdesc (block wn ! i) else link_bdesc nw wn tag i)"
      proof (cases "i < blk")
        case True
        with b i bd_other show ?thesis by simp
      next
        case False
        show ?thesis
        proof (cases "i = blk")
          case True
          with b bd_blk show ?thesis by simp
        next
          case ne: False
          with False have "blk < i" by simp
          with b i link' show ?thesis by simp
        qed
      qed
    qed
  qed
qed

lemma relinked_block0:
  assumes "win_ok (wl ! w)"
  shows "addr (block (relinked wl w) ! 0) = addr (block (wl ! w) ! 0)"
proof -
  have "nr_blocks (wl ! w) = length (block (wl ! w))" "0 < length (block (wl ! w))"
    using assms by (auto simp: win_ok_def)
  then show ?thesis
    using relink_blocks_spec [of "wl ! w"] by (simp add: relinked_def)
qed

text \<open>The window loop: after the windows below \<open>k\<close>, the rest of the list follows.\<close>

lemma relink_fold:
  assumes "\<forall>w \<in> set wl. win_ok w"
    and "k \<le> length wl"
    and "win_list m = map (relinked wl) [0..<k] @ drop k wl"
  shows "win_list (fold (\<lambda>w m. m\<lparr>win_list := (win_list m)[w := relink_win m w]\<rparr>) [k..<length wl] m) =
         map (relinked wl) [0..<length wl]"
  using assms(2,3)
proof (induction "length wl - k" arbitrary: k m)
  case 0
  then show ?case by simp
next
  case (Suc d)
  then have k: "k < length wl" by simp
  have len: "length (win_list m) = length wl"
    using Suc.prems by simp
  have at_k: "win_list m ! k = wl ! k"
    using k Suc.prems(2) by (simp add: nth_append)
  have ok: "\<And>j. j < length wl \<Longrightarrow> win_ok (wl ! j)"
    using assms(1) by simp
  have nxt: "addr (block (win_list m ! (if Suc k = length wl then 0 else Suc k)) ! 0) =
             addr (block (wl ! (if Suc k = length wl then 0 else Suc k)) ! 0)"
  proof (cases "Suc k = length wl")
    case False
    with k have "Suc k < length wl" by simp
    then have "win_list m ! Suc k = wl ! Suc k"
      using Suc.prems(2) by (simp add: nth_append)
    with False show ?thesis by simp
  next
    case True
    show ?thesis
    proof (cases "k = 0")
      case True
      with at_k \<open>Suc k = length wl\<close> show ?thesis by simp
    next
      case False
      then have "win_list m ! 0 = relinked wl 0"
        using Suc.prems(2) by (simp add: nth_append)
      moreover have "0 < length wl" using k by (cases wl) simp_all
      ultimately show ?thesis
        using True relinked_block0 [OF ok [of 0]] by simp
    qed
  qed
  have rw: "relink_win m k = relinked wl k"
    using nxt at_k len by (auto simp: relink_win_def relinked_def msc_is_last_win_def Let_def)
  let ?m1 = "m\<lparr>win_list := (win_list m)[k := relink_win m k]\<rparr>"
  have "drop k wl = wl ! k # drop (Suc k) wl"
    using k by (simp add: Cons_nth_drop_Suc)
  then have "win_list ?m1 = map (relinked wl) [0..<k] @ relinked wl k # drop (Suc k) wl"
    using Suc.prems(2) rw by (simp add: list_update_append)
  then have wl1: "win_list ?m1 = map (relinked wl) [0..<Suc k] @ drop (Suc k) wl"
    by simp
  have "d = length wl - Suc k"
    using Suc.hyps(2) by simp
  from Suc.hyps(1) [OF this _ wl1] k
  have "win_list (fold (\<lambda>w m. m\<lparr>win_list := (win_list m)[w := relink_win m w]\<rparr>) [Suc k..<length wl] ?m1) =
        map (relinked wl) [0..<length wl]"
    by simp
  moreover have "[k..<length wl] = k # [Suc k..<length wl]"
    using k by (simp add: upt_conv_Cons)
  ultimately show ?case by simp
qed

lemma relink_win_list:
  assumes "\<forall>w \<in> set (win_list m). win_ok w"
  shows "win_list (msc_buffer_relink m) = map (relinked (win_list m)) [0..<length (win_list m)]"
  unfolding msc_buffer_relink_def
  using relink_fold [OF assms, of 0 m] by simp

text \<open>Every block of a relinked list, read off the list before the call.\<close>

lemma relink_block:
  assumes "\<forall>w \<in> set (win_list m). win_ok w"
    and "w < length (win_list m)" and "b < nr_blocks (win_list m ! w)"
  shows "addr (block (win_list (msc_buffer_relink m) ! w) ! b) = addr (block (win_list m ! w) ! b)"
    and "nr_blocks (win_list (msc_buffer_relink m) ! w) = nr_blocks (win_list m ! w)"
    and "bdesc (block (win_list (msc_buffer_relink m) ! w) ! b) =
           link_bdesc (addr (block (win_list m ! (if Suc w = length (win_list m) then 0 else Suc w)) ! 0))
             (win_list m ! w)
             (if Suc w = length (win_list m) then {MSC_SW_TAG_LASTWIN} else {}) b"
proof -
  have ok: "nr_blocks (win_list m ! w) = length (block (win_list m ! w))"
    using assms(1,2) by (simp add: win_ok_def)
  have at: "win_list (msc_buffer_relink m) ! w = relinked (win_list m) w"
    using assms(2) by (simp add: relink_win_list [OF assms(1)])
  note spec = relink_blocks_spec [OF ok]
  show "addr (block (win_list (msc_buffer_relink m) ! w) ! b) = addr (block (win_list m ! w) ! b)"
    using spec assms(3) ok by (simp add: at relinked_def)
  show "nr_blocks (win_list (msc_buffer_relink m) ! w) = nr_blocks (win_list m ! w)"
    using spec by (simp add: at relinked_def)
  show "bdesc (block (win_list (msc_buffer_relink m) ! w) ! b) =
           link_bdesc (addr (block (win_list m ! (if Suc w = length (win_list m) then 0 else Suc w)) ! 0))
             (win_list m ! w)
             (if Suc w = length (win_list m) then {MSC_SW_TAG_LASTWIN} else {}) b"
    using spec assms(3) ok by (simp add: at relinked_def)
qed

text \<open>Walking a ring of \<open>n\<close> positions.\<close>

lemma mod_shift_le:
  fixes n :: nat
  assumes "j \<le> j'" "j' < n" "Suc (b + j) mod n = Suc (b + j') mod n"
  shows "j = j'"
proof (rule ccontr)
  assume "j \<noteq> j'"
  with assms(1) have pos: "0 < j' - j" by simp
  have "Suc (b + j) \<le> Suc (b + j')"
    using assms(1) by simp
  then have "n dvd Suc (b + j') - Suc (b + j)"
    using assms(3) mod_eq_dvd_iff_nat [of "Suc (b + j)" "Suc (b + j')" n] by metis
  moreover have "Suc (b + j') - Suc (b + j) = j' - j" by simp
  ultimately have "n dvd j' - j" by (simp only:)
  moreover have "j' - j < n" using assms(2) by simp
  ultimately show False
    using pos nat_dvd_not_less by blast
qed

lemma mod_shift_inj:
  fixes n :: nat
  assumes "j < n" "j' < n" "Suc (b + j) mod n = Suc (b + j') mod n"
  shows "j = j'"
proof (cases "j \<le> j'")
  case True
  with assms show ?thesis by (intro mod_shift_le [of j j' n b]) simp_all
next
  case False
  then have "j' \<le> j" by simp
  with assms have "j' = j" by (intro mod_shift_le [of j' j n b]) simp_all
  then show ?thesis by simp
qed

lemma rotation_perm:
  fixes n :: nat
  assumes "0 < n"
  shows "distinct (map (\<lambda>j. Suc (b + j) mod n) [0..<n]) \<and>
         set (map (\<lambda>j. Suc (b + j) mod n) [0..<n]) = {0..<n}"
proof -
  have inj: "inj_on (\<lambda>j. Suc (b + j) mod n) {0..<n}"
    by (rule inj_onI) (auto intro: mod_shift_inj)
  then have d: "distinct (map (\<lambda>j. Suc (b + j) mod n) [0..<n])"
    by (simp add: distinct_map)
  have sub: "(\<lambda>j. Suc (b + j) mod n) ` {0..<n} \<subseteq> {0..<n}"
    using assms by auto
  have "card ((\<lambda>j. Suc (b + j) mod n) ` {0..<n}) = card {0..<n}"
    using inj by (rule card_image)
  with sub have "(\<lambda>j. Suc (b + j) mod n) ` {0..<n} = {0..<n}"
    by (intro card_subset_eq) simp_all
  with d show ?thesis by simp
qed

lemma find_unique_upt:
  assumes "j < n" and "inj_on f {0..<n}"
  shows "find (\<lambda>i. f i = f j) [0..<n] = Some j"
proof -
  have "\<forall>k<j. f k \<noteq> f j"
  proof (intro allI impI)
    fix k assume "k < j"
    then have "k \<in> {0..<n}" "j \<in> {0..<n}" "k \<noteq> j"
      using assms(1) by simp_all
    then show "f k \<noteq> f j"
      using assms(2) by (meson inj_onD)
  qed
  then show ?thesis
    using assms(1) by (auto simp: find_Some_iff intro!: exI [of _ j])
qed

lemma ring_from_perm:
  assumes "b < n"
  shows "distinct (ring_from b n) \<and> set (ring_from b n) = {0..<n} \<and> last (ring_from b n) = b \<and>
         length (ring_from b n) = n"
proof -
  have n: "0 < n" using assms by simp
  then have "[0..<n] \<noteq> []" by simp
  then have "last (ring_from b n) = Suc (b + last [0..<n]) mod n"
    by (simp add: ring_from_def last_map)
  also have "last [0..<n] = n - 1"
    using n by (metis Suc_diff_1 diff_zero last_upt zero_less_Suc One_nat_def)
  also have "Suc (b + (n - 1)) mod n = b"
    using assms by simp
  finally show ?thesis
    using rotation_perm [OF n, of b] by (simp add: ring_from_def)
qed

lemma ring_step: "Suc (Suc b mod n + j) mod n = Suc (Suc (b + j)) mod n"
proof -
  have "Suc (Suc b mod n + j) mod n = (Suc b mod n + Suc j) mod n" by simp
  also have "\<dots> = (Suc b + Suc j) mod n" by (rule mod_add_left_eq)
  finally show ?thesis by simp
qed

lemma ring_map_Suc:
  "map (\<lambda>j. Suc (b + j) mod n) [0..<Suc k] =
   Suc b mod n # map (\<lambda>j. Suc (Suc b mod n + j) mod n) [0..<k]"
proof -
  have "[0..<Suc k] = 0 # map Suc [0..<k]"
    by (simp add: upt_conv_Cons map_Suc_upt del: upt_Suc)
  then show ?thesis
    by (simp add: ring_step comp_def del: upt_Suc)
qed

text \<open>Following the pointers of a linked window, and of a linked list of windows.\<close>

lemma blk_chain_cycle:
  assumes "blocks_apart wn"
    and "\<forall>b<nr_blocks wn. next_blk (bdesc (block wn ! b)) =
                           addr (block wn ! (Suc b mod nr_blocks wn)) div 2 ^ PAGE_SHIFT"
  shows "b < nr_blocks wn \<Longrightarrow>
         blk_chain wn k b = Some (map (\<lambda>j. Suc (b + j) mod nr_blocks wn) [0..<k])"
proof (induction k arbitrary: b)
  case 0
  show ?case by simp
next
  case (Suc k)
  let ?n = "nr_blocks wn"
  let ?b' = "Suc b mod ?n"
  have b': "?b' < ?n" using Suc.prems by simp
  have "blk_of_pfn wn (next_blk (bdesc (block wn ! b))) = Some ?b'"
    using find_unique_upt [OF b', of "\<lambda>i. addr (block wn ! i) div 2 ^ PAGE_SHIFT"]
      assms Suc.prems by (simp add: blk_of_pfn_def blocks_apart_def)
  with Suc.IH [OF b'] show ?case
    unfolding ring_map_Suc by simp
qed

lemma win_chain_cycle:
  assumes "windows_apart m"
    and "\<forall>w<length (win_list m).
           next_win (bdesc (block (win_list m ! w) ! (nr_blocks (win_list m ! w) - 1))) =
           addr (block (win_list m ! (Suc w mod length (win_list m))) ! 0) div 2 ^ PAGE_SHIFT"
  shows "w < length (win_list m) \<Longrightarrow>
         win_chain m k w = Some (map (\<lambda>j. Suc (w + j) mod length (win_list m)) [0..<k])"
proof (induction k arbitrary: w)
  case 0
  show ?case by simp
next
  case (Suc k)
  let ?n = "length (win_list m)"
  let ?w' = "Suc w mod ?n"
  have "0 < ?n" using Suc.prems by (cases "win_list m") simp_all
  then have w': "?w' < ?n" by (rule mod_less_divisor)
  have "win_of_pfn m (next_win (bdesc (block (win_list m ! w) ! (nr_blocks (win_list m ! w) - 1)))) = Some ?w'"
    using find_unique_upt [OF w', of "\<lambda>w. addr (block (win_list m ! w) ! 0) div 2 ^ PAGE_SHIFT"]
      assms Suc.prems by (simp add: win_of_pfn_def windows_apart_def)
  with Suc.IH [OF w'] show ?case
    unfolding ring_map_Suc by simp
qed

lemma ring_succ: "b < n \<Longrightarrow> Suc b mod n = (if Suc b = n then 0 else Suc b)"
  by simp

text \<open>
  C4. Take a non-empty list of well-formed windows whose blocks lie below \<open>2 ^ 44\<close>,
  so that their page frame numbers fit the 32 bits of a pointer field. After
  \<open>msc_buffer_relink\<close> the list has the windows it had, and for every block \<open>b\<close> of
  every window \<open>w\<close>: \<open>next_blk\<close> holds the page of the following block of the
  window, of the window's first block when \<open>b\<close> is the last one, and exactly the last
  block carries \<open>MSC_SW_TAG_LASTBLK\<close>; \<open>next_win\<close> holds the page of the first block
  of the following window, of the first window when \<open>w\<close> is the last one, and exactly
  the blocks of the last window carry \<open>MSC_SW_TAG_LASTWIN\<close>. Hence, the blocks of the
  window lying on different pages, following \<open>next_blk\<close> from \<open>b\<close> as many times as
  the window has blocks passes every block of the window exactly once and ends at \<open>b\<close>;
  and, the windows starting on different pages, following \<open>next_win\<close> from \<open>w\<close> as
  many times as there are windows passes every window exactly once and ends at \<open>w\<close>.
\<close>

theorem relink_topology:
  assumes "win_list m \<noteq> []" and "\<forall>x \<in> set (win_list m). win_ok x"
    and "w < length (win_list m)" and "b < nr_blocks (win_list m ! w)"
    and "pfn_fits m"
  shows "length (win_list (msc_buffer_relink m)) = length (win_list m) \<and>
     nr_blocks (win_list (msc_buffer_relink m) ! w) = nr_blocks (win_list m ! w) \<and>
     addr (block (win_list (msc_buffer_relink m) ! w) ! b) = addr (block (win_list m ! w) ! b) \<and>
     next_blk (bdesc (block (win_list (msc_buffer_relink m) ! w) ! b)) =
       addr (block (win_list m ! w) ! (if Suc b = nr_blocks (win_list m ! w) then 0 else Suc b))
         div 2 ^ PAGE_SHIFT \<and>
     (MSC_SW_TAG_LASTBLK \<in> sw_tag (bdesc (block (win_list (msc_buffer_relink m) ! w) ! b))) =
       (Suc b = nr_blocks (win_list m ! w)) \<and>
     next_win (bdesc (block (win_list (msc_buffer_relink m) ! w) ! b)) =
       addr (block (win_list m ! (if Suc w = length (win_list m) then 0 else Suc w)) ! 0)
         div 2 ^ PAGE_SHIFT \<and>
     (MSC_SW_TAG_LASTWIN \<in> sw_tag (bdesc (block (win_list (msc_buffer_relink m) ! w) ! b))) =
       (Suc w = length (win_list m)) \<and>
     (blocks_apart (win_list m ! w) \<longrightarrow>
        blk_chain (win_list (msc_buffer_relink m) ! w) (nr_blocks (win_list m ! w)) b =
          Some (ring_from b (nr_blocks (win_list m ! w))) \<and>
        distinct (ring_from b (nr_blocks (win_list m ! w))) \<and>
        set (ring_from b (nr_blocks (win_list m ! w))) = {0..<nr_blocks (win_list m ! w)} \<and>
        last (ring_from b (nr_blocks (win_list m ! w))) = b) \<and>
     (windows_apart m \<longrightarrow>
        win_chain (msc_buffer_relink m) (length (win_list m)) w =
          Some (ring_from w (length (win_list m))) \<and>
        distinct (ring_from w (length (win_list m))) \<and>
        set (ring_from w (length (win_list m))) = {0..<length (win_list m)} \<and>
        last (ring_from w (length (win_list m))) = w)"
proof -
  let ?m' = "msc_buffer_relink m"
  let ?n = "length (win_list m)"
  let ?nb = "nr_blocks (win_list m ! w)"
  note ok = assms(2)
  have len: "length (win_list ?m') = ?n"
    by (simp add: relink_win_list [OF ok])
  have first: "\<And>v. v < ?n \<Longrightarrow> 0 < nr_blocks (win_list m ! v)"
  proof -
    fix v assume "v < ?n"
    then have "win_list m ! v \<in> set (win_list m)" by simp
    with ok show "0 < nr_blocks (win_list m ! v)"
      unfolding win_ok_def by blast
  qed
  have nbs: "\<And>v. v < ?n \<Longrightarrow> nr_blocks (win_list ?m' ! v) = nr_blocks (win_list m ! v)"
    using relink_block(2) [OF ok _ first] by simp
  have addrs: "\<And>v c. v < ?n \<Longrightarrow> c < nr_blocks (win_list m ! v) \<Longrightarrow>
                 addr (block (win_list ?m' ! v) ! c) = addr (block (win_list m ! v) ! c)"
    using relink_block(1) [OF ok] by simp
  have bd: "\<And>v c. v < ?n \<Longrightarrow> c < nr_blocks (win_list m ! v) \<Longrightarrow>
      bdesc (block (win_list ?m' ! v) ! c) =
        link_bdesc (addr (block (win_list m ! (if Suc v = ?n then 0 else Suc v)) ! 0))
          (win_list m ! v) (if Suc v = ?n then {MSC_SW_TAG_LASTWIN} else {}) c"
    using relink_block(3) [OF ok] by simp
  have fits: "addr (block (win_list m ! v) ! c) div 2 ^ PAGE_SHIFT mod 2 ^ 32 =
              addr (block (win_list m ! v) ! c) div 2 ^ PAGE_SHIFT"
    if v: "v < ?n" and c: "c < nr_blocks (win_list m ! v)" for v c
  proof -
    have wn: "win_list m ! v \<in> set (win_list m)" using v by simp
    with ok have "nr_blocks (win_list m ! v) = length (block (win_list m ! v))"
      unfolding win_ok_def by blast
    with c have "block (win_list m ! v) ! c \<in> set (block (win_list m ! v))" by simp
    with wn assms(5) have "addr (block (win_list m ! v) ! c) < 2 ^ (32 + PAGE_SHIFT)"
      unfolding pfn_fits_def list_all_iff by blast
    then have "addr (block (win_list m ! v) ! c) div 2 ^ PAGE_SHIFT < 2 ^ 32"
      by (simp add: less_mult_imp_div_less power_add)
    then show ?thesis by simp
  qed
  have nblk: "\<And>v c. v < ?n \<Longrightarrow> c < nr_blocks (win_list m ! v) \<Longrightarrow>
      next_blk (bdesc (block (win_list ?m' ! v) ! c)) =
        addr (block (win_list m ! v) ! (Suc c mod nr_blocks (win_list m ! v))) div 2 ^ PAGE_SHIFT"
  proof -
    fix v c assume v: "v < ?n" and c: "c < nr_blocks (win_list m ! v)"
    have "Suc c mod nr_blocks (win_list m ! v) < nr_blocks (win_list m ! v)"
      using first [OF v] by (rule mod_less_divisor)
    from fits [OF v this] show "next_blk (bdesc (block (win_list ?m' ! v) ! c)) =
        addr (block (win_list m ! v) ! (Suc c mod nr_blocks (win_list m ! v))) div 2 ^ PAGE_SHIFT"
      using v c by (simp add: bd link_bdesc_def zero_bdesc_def)
  qed
  have nwin: "\<And>v c. v < ?n \<Longrightarrow> c < nr_blocks (win_list m ! v) \<Longrightarrow>
      next_win (bdesc (block (win_list ?m' ! v) ! c)) =
        addr (block (win_list m ! (if Suc v = ?n then 0 else Suc v)) ! 0) div 2 ^ PAGE_SHIFT"
  proof -
    fix v c assume v: "v < ?n" and c: "c < nr_blocks (win_list m ! v)"
    have v': "(if Suc v = ?n then 0 else Suc v) < ?n" using v by auto
    from fits [OF v' first [OF v']] show "next_win (bdesc (block (win_list ?m' ! v) ! c)) =
        addr (block (win_list m ! (if Suc v = ?n then 0 else Suc v)) ! 0) div 2 ^ PAGE_SHIFT"
      using v c by (simp add: bd link_bdesc_def zero_bdesc_def)
  qed
  have tags: "sw_tag (bdesc (block (win_list ?m' ! w) ! b)) =
      (if Suc b = ?nb then insert MSC_SW_TAG_LASTBLK (if Suc w = ?n then {MSC_SW_TAG_LASTWIN} else {})
       else (if Suc w = ?n then {MSC_SW_TAG_LASTWIN} else {}))"
    using assms(3,4) by (simp add: bd link_bdesc_def zero_bdesc_def)
  have c1: "next_blk (bdesc (block (win_list ?m' ! w) ! b)) =
       addr (block (win_list m ! w) ! (if Suc b = ?nb then 0 else Suc b)) div 2 ^ PAGE_SHIFT"
    using nblk [OF assms(3,4)] ring_succ [OF assms(4)] by simp
  have c2: "(MSC_SW_TAG_LASTBLK \<in> sw_tag (bdesc (block (win_list ?m' ! w) ! b))) = (Suc b = ?nb)"
    by (simp add: tags)
  have c3: "(MSC_SW_TAG_LASTWIN \<in> sw_tag (bdesc (block (win_list ?m' ! w) ! b))) = (Suc w = ?n)"
    by (simp add: tags)
  have blocks: "blocks_apart (win_list m ! w) \<Longrightarrow>
        blk_chain (win_list ?m' ! w) ?nb b = Some (ring_from b ?nb)"
  proof -
    assume ap: "blocks_apart (win_list m ! w)"
    have "blocks_apart (win_list ?m' ! w)"
      using ap addrs [OF assms(3)] nbs [OF assms(3)]
      by (simp add: blocks_apart_def inj_on_def)
    moreover have "\<forall>c<nr_blocks (win_list ?m' ! w).
        next_blk (bdesc (block (win_list ?m' ! w) ! c)) =
          addr (block (win_list ?m' ! w) ! (Suc c mod nr_blocks (win_list ?m' ! w))) div 2 ^ PAGE_SHIFT"
      using nblk [OF assms(3)] addrs [OF assms(3)] nbs [OF assms(3)] first [OF assms(3)]
      by simp
    ultimately show ?thesis
      using blk_chain_cycle [of "win_list ?m' ! w" b ?nb] assms(4) nbs [OF assms(3)]
      by (simp add: ring_from_def)
  qed
  have wins: "windows_apart m \<Longrightarrow> win_chain ?m' ?n w = Some (ring_from w ?n)"
  proof -
    assume ap: "windows_apart m"
    have "windows_apart ?m'"
      using ap addrs first len by (simp add: windows_apart_def inj_on_def)
    moreover have "\<forall>v<length (win_list ?m').
           next_win (bdesc (block (win_list ?m' ! v) ! (nr_blocks (win_list ?m' ! v) - 1))) =
           addr (block (win_list ?m' ! (Suc v mod length (win_list ?m'))) ! 0) div 2 ^ PAGE_SHIFT"
    proof (intro allI impI)
      fix v assume "v < length (win_list ?m')"
      then have v: "v < ?n" by (simp add: len)
      have "0 < ?n" using assms(1) by simp
      then have sv: "Suc v mod ?n < ?n" by (rule mod_less_divisor)
      have "nr_blocks (win_list m ! v) - 1 < nr_blocks (win_list m ! v)"
        using first [OF v] by simp
      from nwin [OF v this] have "next_win (bdesc (block (win_list ?m' ! v) ! (nr_blocks (win_list m ! v) - 1))) =
          addr (block (win_list m ! (Suc v mod ?n)) ! 0) div 2 ^ PAGE_SHIFT"
        using ring_succ [OF v] by simp
      then show "next_win (bdesc (block (win_list ?m' ! v) ! (nr_blocks (win_list ?m' ! v) - 1))) =
           addr (block (win_list ?m' ! (Suc v mod length (win_list ?m'))) ! 0) div 2 ^ PAGE_SHIFT"
        using nbs [OF v] addrs [OF sv first [OF sv]] len by simp
    qed
    ultimately show ?thesis
      using win_chain_cycle [of ?m' w ?n] assms(3) len
      by (simp add: ring_from_def)
  qed
  show ?thesis
    using len nbs [OF assms(3)] addrs [OF assms(3,4)] c1 c2 c3 nwin [OF assms(3,4)]
      blocks wins ring_from_perm [OF assms(4)] ring_from_perm [OF assms(3)]
    by simp
qed

theorem relink_topology_witness:
  "win_list ex_unlinked \<noteq> [] \<and> list_all win_ok (win_list ex_unlinked) \<and>
   pfn_fits ex_unlinked \<and> blocks_apart (win_list ex_unlinked ! 0) \<and> windows_apart ex_unlinked \<and>
   next_blk (bdesc (block (win_list (msc_buffer_relink ex_unlinked) ! 0) ! 1)) = 1 \<and>
   MSC_SW_TAG_LASTBLK \<in> sw_tag (bdesc (block (win_list (msc_buffer_relink ex_unlinked) ! 0) ! 1)) \<and>
   next_win (bdesc (block (win_list (msc_buffer_relink ex_unlinked) ! 0) ! 1)) = 3 \<and>
   MSC_SW_TAG_LASTWIN \<notin> sw_tag (bdesc (block (win_list (msc_buffer_relink ex_unlinked) ! 0) ! 1)) \<and>
   blk_chain (win_list (msc_buffer_relink ex_unlinked) ! 0) 2 1 = Some [0, 1] \<and>
   win_chain (msc_buffer_relink ex_unlinked) 2 0 = Some [1, 0]"
proof -
  have wl: "win_list ex_unlinked =
      [\<lparr>pgoff = 0, nr_blocks = 2, block = [ex_block 0x1000 0 0, ex_block 0x2000 0 0]\<rparr>,
       \<lparr>pgoff = 2, nr_blocks = 1, block = [ex_block 0x3000 0 0]\<rparr>]"
    by (simp add: ex_unlinked_def)
  have h1: "win_list ex_unlinked \<noteq> []"
    by (simp add: wl)
  have h2: "\<forall>x \<in> set (win_list ex_unlinked). win_ok x"
    by (simp add: wl win_ok_def)
  have h3: "(0::nat) < length (win_list ex_unlinked)"
    by (simp add: wl)
  have h4: "(1::nat) < nr_blocks (win_list ex_unlinked ! 0)"
    by (simp add: wl)
  have h4': "(0::nat) < nr_blocks (win_list ex_unlinked ! 0)"
    by (simp add: wl)
  have two: "{0..<2::nat} = {0, 1}"
    by auto
  have h5: "blocks_apart (win_list ex_unlinked ! 0)"
    by (simp add: wl blocks_apart_def two ex_block_def PAGE_SHIFT_def)
  have two': "{0..<Suc (Suc 0)} = {0, Suc 0}"
    by auto
  have h6: "windows_apart ex_unlinked"
    by (simp add: wl windows_apart_def two' ex_block_def PAGE_SHIFT_def)
  have u: "[0..<2::nat] = [0, 1]"
    by (simp add: upt_rec)
  have r1: "ring_from 1 2 = [0, 1]" and r0: "ring_from 0 2 = [1, 0]"
    by (simp_all add: ring_from_def u)
  have nb: "nr_blocks (win_list ex_unlinked ! 0) = 2" and n: "length (win_list ex_unlinked) = 2"
    by (simp_all add: wl)
  have a0: "addr (block (win_list ex_unlinked ! 0) ! (if Suc 1 = nr_blocks (win_list ex_unlinked ! 0) then 0 else Suc 1))
             div 2 ^ PAGE_SHIFT = 1"
    by (simp add: wl ex_block_def PAGE_SHIFT_def)
  have a1: "addr (block (win_list ex_unlinked ! (if Suc 0 = length (win_list ex_unlinked) then 0 else Suc 0)) ! 0)
             div 2 ^ PAGE_SHIFT = 3"
    by (simp add: wl ex_block_def PAGE_SHIFT_def)
  have h7: "pfn_fits ex_unlinked"
    by (simp add: wl pfn_fits_def ex_block_def PAGE_SHIFT_def)
  note t = relink_topology [OF h1 h2 h3 h4 h7]
  note t' = relink_topology [OF h1 h2 h3 h4' h7]
  let ?bd = "bdesc (block (win_list (msc_buffer_relink ex_unlinked) ! 0) ! 1)"
  have "next_blk ?bd =
        addr (block (win_list ex_unlinked ! 0) ! (if Suc 1 = nr_blocks (win_list ex_unlinked ! 0) then 0 else Suc 1))
          div 2 ^ PAGE_SHIFT"
    using t by blast
  then have c1: "next_blk ?bd = 1"
    by (simp only: a0)
  have "(MSC_SW_TAG_LASTBLK \<in> sw_tag ?bd) = (Suc 1 = nr_blocks (win_list ex_unlinked ! 0))"
    using t by blast
  then have c2: "MSC_SW_TAG_LASTBLK \<in> sw_tag ?bd"
    by (simp add: nb)
  have "next_win ?bd =
        addr (block (win_list ex_unlinked ! (if Suc 0 = length (win_list ex_unlinked) then 0 else Suc 0)) ! 0)
          div 2 ^ PAGE_SHIFT"
    using t by blast
  then have c3: "next_win ?bd = 3"
    by (simp only: a1)
  have "(MSC_SW_TAG_LASTWIN \<in> sw_tag ?bd) = (Suc 0 = length (win_list ex_unlinked))"
    using t by blast
  then have c4: "MSC_SW_TAG_LASTWIN \<notin> sw_tag ?bd"
    by (simp add: n)
  have "blk_chain (win_list (msc_buffer_relink ex_unlinked) ! 0) (nr_blocks (win_list ex_unlinked ! 0)) 1 =
        Some (ring_from 1 (nr_blocks (win_list ex_unlinked ! 0)))"
    using t h5 by blast
  then have c5: "blk_chain (win_list (msc_buffer_relink ex_unlinked) ! 0) 2 1 = Some [0, 1]"
    by (simp only: nb r1)
  have "win_chain (msc_buffer_relink ex_unlinked) (length (win_list ex_unlinked)) 0 =
        Some (ring_from 0 (length (win_list ex_unlinked)))"
    using t' h6 by blast
  then have c6: "win_chain (msc_buffer_relink ex_unlinked) 2 0 = Some [1, 0]"
    by (simp only: n r0)
  have "list_all win_ok (win_list ex_unlinked)"
    using h2 by (simp add: list_all_iff)
  then show ?thesis
    using h1 h5 h6 h7 c1 c2 c3 c4 c5 c6 by blast
qed

text \<open>
  Above \<open>2 ^ 44\<close> a pointer field holds the low 32 bits of the page frame number only:
  for a window whose second block lies at \<open>2 ^ 44 + 0x2000\<close> the first block's
  \<open>next_blk\<close> is 2.
\<close>

lemma relink_high_address:
  "next_blk (bdesc (block (win_list (msc_buffer_relink ex_high) ! 0) ! 0)) = 2 \<and>
   addr (block (win_list ex_high ! 0) ! 1) div 2 ^ PAGE_SHIFT = 4294967298"
proof -
  have wl: "win_list ex_high =
      [\<lparr>pgoff = 0, nr_blocks = 2,
         block = [ex_block 0x1000 0 0, ex_block (2 ^ 44 + 0x2000) 0 0]\<rparr>]"
    by (simp add: ex_high_def)
  have ok: "\<forall>w \<in> set (win_list ex_high). win_ok w"
    by (simp add: wl win_ok_def)
  have "bdesc (block (win_list (msc_buffer_relink ex_high) ! 0) ! 0) =
        link_bdesc (addr (block (win_list ex_high ! (if Suc 0 = length (win_list ex_high) then 0 else Suc 0)) ! 0))
          (win_list ex_high ! 0)
          (if Suc 0 = length (win_list ex_high) then {MSC_SW_TAG_LASTWIN} else {}) 0"
    by (rule relink_block(3) [OF ok]) (simp_all add: wl)
  then show ?thesis
    by (simp add: wl link_bdesc_def ex_block_def PAGE_SHIFT_def)
qed

section \<open>The usage counter gates allocation and release\<close>

text \<open>
  \<open>msc_buffer_alloc\<close> returns \<open>-EBUSY\<close> and changes nothing whenever the usage counter
  is not negative, and when it succeeds the counter was negative and is zero afterwards.
  \<open>msc_buffer_unlocked_free_unless_used\<close> returns \<open>-EBUSY\<close> and changes nothing when
  the counter is positive; when the counter is zero it leaves the counter negative, no
  window in multi mode and no page counted in single mode, and it gives back the pages of
  the buffer: the blocks of all windows in multi mode, on a platform that gives a block
  back when it is freed for the output device, and the \<open>nr_pages\<close> pages from the base
  address on in single mode. When the counter is negative it succeeds and changes
  nothing.
\<close>

lemma alloc_free_gate:
  "(0 \<le> user_count m \<longrightarrow> msc_buffer_alloc m ps = (Some EBUSY, m)) \<and>
   (msc_buffer_alloc m ps = (None, m') \<longrightarrow> user_count m < 0 \<and> user_count m' = 0) \<and>
   (0 < user_count m \<longrightarrow> msc_buffer_unlocked_free_unless_used m = (Some EBUSY, m)) \<and>
   (user_count m = 0 \<longrightarrow>
      msc_buffer_unlocked_free_unless_used m = (None, msc_buffer_free (m\<lparr>user_count := - 1\<rparr>)) \<and>
      user_count (snd (msc_buffer_unlocked_free_unless_used m)) < 0 \<and>
      (mode m = MSC_MODE_MULTI \<longrightarrow> win_list (snd (msc_buffer_unlocked_free_unless_used m)) = []) \<and>
      (mode m = MSC_MODE_SINGLE \<longrightarrow> nr_pages (snd (msc_buffer_unlocked_free_unless_used m)) = 0) \<and>
      ((mode m = MSC_MODE_MULTI \<longrightarrow> dma_shared m) \<and>
       (mode m = MSC_MODE_SINGLE \<longrightarrow> nr_pages m < 2 ^ 52) \<longrightarrow>
         dma_live (snd (msc_buffer_unlocked_free_unless_used m)) = dma_live m - buffer_pages m)) \<and>
   (user_count m < 0 \<longrightarrow> msc_buffer_unlocked_free_unless_used m = (None, m))"
proof (intro conjI impI)
  assume "0 \<le> user_count m"
  then show "msc_buffer_alloc m ps = (Some EBUSY, m)"
    by (simp add: msc_buffer_alloc_def)
next
  assume a: "msc_buffer_alloc m ps = (None, m')"
  then show "user_count m < 0"
    by (auto simp: msc_buffer_alloc_def split: if_splits)
  from a show "user_count m' = 0"
    by (auto simp: msc_buffer_alloc_def split: if_splits prod.splits option.splits)
next
  assume "0 < user_count m"
  then show "msc_buffer_unlocked_free_unless_used m = (Some EBUSY, m)"
    by (simp add: msc_buffer_unlocked_free_unless_used_def)
next
  assume z: "user_count m = 0"
  then show f: "msc_buffer_unlocked_free_unless_used m = (None, msc_buffer_free (m\<lparr>user_count := - 1\<rparr>))"
    by (simp add: msc_buffer_unlocked_free_unless_used_def)
  show "user_count (snd (msc_buffer_unlocked_free_unless_used m)) < 0"
    by (simp add: f buffer_free_frame)
  show "mode m = MSC_MODE_MULTI \<Longrightarrow> win_list (snd (msc_buffer_unlocked_free_unless_used m)) = []"
    by (simp add: f msc_buffer_free_def multi_free_frame)
  show "mode m = MSC_MODE_SINGLE \<Longrightarrow> nr_pages (snd (msc_buffer_unlocked_free_unless_used m)) = 0"
    by (simp add: f msc_buffer_free_def contig_free_pages)
  assume h: "(mode m = MSC_MODE_MULTI \<longrightarrow> dma_shared m) \<and>
             (mode m = MSC_MODE_SINGLE \<longrightarrow> nr_pages m < 2 ^ 52)"
  show "dma_live (snd (msc_buffer_unlocked_free_unless_used m)) = dma_live m - buffer_pages m"
  proof (cases "mode m = MSC_MODE_SINGLE")
    case True
    with h have "nr_pages m * 2 ^ PAGE_SHIFT < 2 ^ 52 * 2 ^ PAGE_SHIFT"
      by simp
    then have "nr_pages m * 2 ^ PAGE_SHIFT < 2 ^ 64"
      by (simp add: PAGE_SHIFT_def)
    then have "((nr_pages m * 2 ^ PAGE_SHIFT) mod 2 ^ 64) div 2 ^ PAGE_SHIFT = nr_pages m"
      by simp
    with True show ?thesis
      by (simp add: f msc_buffer_free_def contig_free_pages buffer_pages_def)
  next
    case False
    with h show ?thesis
      by (simp add: f msc_buffer_free_def multi_free_given_back buffer_pages_def wins_live_def)
  qed
next
  assume "user_count m < 0"
  then show "msc_buffer_unlocked_free_unless_used m = (None, m)"
    by (simp add: msc_buffer_unlocked_free_unless_used_def)
qed

text \<open>
  C6 at a single-mode buffer of three pages. The allocation takes the four pages of an
  order-2 block from \<open>alloc_pages\<close> and counts three; the release at counter zero gives
  back three pages and leaves the fourth allocated, with the counter negative and no page
  counted.
\<close>

lemma get_order_3_pages: "get_order 12288 = 2"
  by (simp add: get_order_def PAGE_SHIFT_def fls.simps)

lemma pages_4: "page_range 0 4 = {0, 0x1000, 0x2000, 0x3000}" "page_range 0 3 = {0, 0x1000, 0x2000}"
  by (auto simp: page_range_def PAGE_SIZE_def PAGE_SHIFT_def)

theorem single_free_leaves_page:
  "fst (msc_buffer_alloc ex_single [3]) = None \<and>
   user_count (snd (msc_buffer_alloc ex_single [3])) = 0 \<and>
   nr_pages (snd (msc_buffer_alloc ex_single [3])) = 3 \<and>
   dma_live (snd (msc_buffer_alloc ex_single [3])) = {0, 0x1000, 0x2000, 0x3000} \<and>
   fst (msc_buffer_unlocked_free_unless_used (snd (msc_buffer_alloc ex_single [3]))) = None \<and>
   user_count (snd (msc_buffer_unlocked_free_unless_used (snd (msc_buffer_alloc ex_single [3])))) = - 1 \<and>
   nr_pages (snd (msc_buffer_unlocked_free_unless_used (snd (msc_buffer_alloc ex_single [3])))) = 0 \<and>
   dma_live (snd (msc_buffer_unlocked_free_unless_used (snd (msc_buffer_alloc ex_single [3])))) = {0x3000}"
proof -
  let ?a = "ex_single\<lparr>allocs := [], dma_live := {0, 0x1000, 0x2000, 0x3000}, next_dma := 0x4000,
                       nr_pages := 3, base_mem := replicate 12288 0, base_addr := 0,
                       user_count := 0\<rparr>"
  have a: "msc_buffer_alloc ex_single [3] = (None, ?a)"
    by (simp add: ex_defs msc_buffer_alloc_def msc_buffer_contig_alloc_def alloc_pages_def
        alloc_ok_def get_order_3_pages pages_4 PAGE_SHIFT_def PAGE_SIZE_def)
  have "msc_buffer_unlocked_free_unless_used ?a =
        (None, ?a\<lparr>user_count := - 1, dma_live := {0x3000}, nr_pages := 0\<rparr>)"
    by (simp add: ex_defs msc_buffer_unlocked_free_unless_used_def msc_buffer_free_def
        contig_free_pages pages_4 PAGE_SHIFT_def) 
  then show ?thesis
    unfolding a by simp
qed

theorem single_free_leaves_page_witness:
  "dma_live ex_single = {} \<and>
   dma_live (snd (msc_buffer_unlocked_free_unless_used (snd (msc_buffer_alloc ex_single [3])))) \<noteq>
     dma_live ex_single"
proof -
  have "dma_live ex_single = {}"
    by (simp add: ex_defs)
  then show ?thesis
    using single_free_leaves_page by simp
qed

section \<open>Zero entries and single-mode lists\<close>

lemma fold_win_free_allocs:
  "allocs (fold (\<lambda>_ m. msc_buffer_win_free m 0) xs m) = allocs m"
  by (induction xs arbitrary: m) (simp_all add: win_free_head)

lemma free_unless_used_allocs:
  "allocs (snd (msc_buffer_unlocked_free_unless_used m)) = allocs m"
  by (simp add: msc_buffer_unlocked_free_unless_used_def Let_def msc_buffer_free_def
      contig_free_pages msc_buffer_multi_free_def fold_win_free_allocs)

lemma free_unless_used_counter:
  "user_count m \<le> 0 \<Longrightarrow>
   fst (msc_buffer_unlocked_free_unless_used m) = None \<and>
   user_count (snd (msc_buffer_unlocked_free_unless_used m)) < 0"
  by (simp add: msc_buffer_unlocked_free_unless_used_def Let_def buffer_free_frame)

lemma alloc_ok_nil: "allocs m = [] \<Longrightarrow> alloc_ok m = (True, m)"
  by (simp add: alloc_ok_def)

lemma scan_strings_nth0:
  "scan_strings buf p len ! 0 =
     kstrndup buf p (case memchr buf p CHR '','' len of Some e \<Rightarrow> e - p | None \<Rightarrow> len)"
  by (subst scan_strings.simps) simp

lemma scan_strings_more:
  assumes "Suc k < length (scan_strings buf p len)"
  shows "\<exists>e. memchr buf p CHR '','' len = Some e \<and> len - (e - p) \<noteq> 0 \<and>
             scan_strings buf p len ! Suc k = scan_strings buf (e + 1) (len - (e - p)) ! k \<and>
             k < length (scan_strings buf (e + 1) (len - (e - p)))"
proof (cases "memchr buf p CHR '','' len")
  case None
  with assms show ?thesis
    by (subst (asm) scan_strings.simps) simp
next
  case (Some e)
  show ?thesis
  proof (cases "len - (e - p) \<noteq> 0")
    case False
    with Some assms show ?thesis
      by (subst (asm) scan_strings.simps) simp
  next
    case True
    have "scan_strings buf p len =
          scan_strings buf p len ! 0 # scan_strings buf (e + 1) (len - (e - p))"
      using Some True by (subst scan_strings.simps, subst scan_strings_nth0) simp
    with assms Some True show ?thesis
      by (metis Suc_less_eq length_Cons nth_Cons_Suc)
  qed
qed

text \<open>
  The scan reaches entry \<open>k\<close> when the entries before it are non-zero numbers, and a
  zero there sends it to \<open>free_win\<close> with \<open>ret = 0\<close>.
\<close>

lemma store_scan_zero:
  "allocs m = [] \<Longrightarrow> k < length (scan_strings buf p len) \<Longrightarrow>
   \<forall>i<k. fst (K (scan_strings buf p len ! i)) = None \<and> snd (K (scan_strings buf p len ! i)) \<noteq> 0 \<Longrightarrow>
   K (scan_strings buf p len ! k) = (None, 0) \<Longrightarrow>
   (mode m = MSC_MODE_SINGLE \<longrightarrow> length wins + k \<le> 1) \<Longrightarrow>
   \<exists>mb. store_scan K buf m p len wins = Goto_free_win None (m\<lparr>max_blocks := mb\<rparr>)"
proof (induction k arbitrary: m p len wins)
  case 0
  let ?s = "kstrndup buf p (case memchr buf p CHR '','' len of Some e \<Rightarrow> e - p | None \<Rightarrow> len)"
  have k0: "K ?s = (None, 0)"
    using "0.prems"(4) by (simp add: scan_strings_nth0)
  have "store_scan K buf m p len wins = Goto_free_win None m"
    using store_scan_unfold [where K = K and buf = buf and p = p and len = len and wins = wins,
        OF alloc_ok_nil [OF "0.prems"(1)] k0 alloc_ok_nil [OF "0.prems"(1)] refl]
    by simp
  moreover have "m = m\<lparr>max_blocks := max_blocks m\<rparr>" by simp
  ultimately show ?case by metis
next
  case (Suc k)
  let ?s = "kstrndup buf p (case memchr buf p CHR '','' len of Some e \<Rightarrow> e - p | None \<Rightarrow> len)"
  obtain ret val where kv: "K ?s = (ret, val)" by (cases "K ?s")
  have "fst (K (scan_strings buf p len ! 0)) = None \<and> snd (K (scan_strings buf p len ! 0)) \<noteq> 0"
    using Suc.prems(3) by blast
  with kv have rv: "ret = None" "val \<noteq> 0"
    by (simp_all add: scan_strings_nth0)
  from scan_strings_more [OF Suc.prems(2)] obtain e where
    e: "memchr buf p CHR '','' len = Some e" "len - (e - p) \<noteq> 0"
    and nth: "\<And>j. Suc j < length (scan_strings buf p len) \<Longrightarrow>
                scan_strings buf p len ! Suc j = scan_strings buf (e + 1) (len - (e - p)) ! j"
    and kl: "k < length (scan_strings buf (e + 1) (len - (e - p)))"
    using scan_strings_more [of _ buf p len] by (metis option.inject)
  define m3 where "m3 = m\<lparr>max_blocks := (if val > max_blocks m then val else max_blocks m) mod 2 ^ 32\<rparr>"
  have single: "\<not> (wins \<noteq> [] \<and> mode m = MSC_MODE_SINGLE)"
    using Suc.prems(5) by auto
  have step: "store_scan K buf m p len wins =
              store_scan K buf m3 (e + 1) (len - (e - p)) (wins @ [val])"
    using store_scan_unfold [where K = K and buf = buf and p = p and len = len and wins = wins,
        OF alloc_ok_nil [OF Suc.prems(1)] kv alloc_ok_nil [OF Suc.prems(1)] m3_def]
      rv e single
    by auto
  have a3: "allocs m3 = []"
    using Suc.prems(1) by (simp add: m3_def)
  have before: "\<forall>i<k. fst (K (scan_strings buf (e + 1) (len - (e - p)) ! i)) = None \<and>
                      snd (K (scan_strings buf (e + 1) (len - (e - p)) ! i)) \<noteq> 0"
  proof (intro allI impI)
    fix i assume i: "i < k"
    then have "Suc i < length (scan_strings buf p len)" "Suc i < Suc k"
      using Suc.prems(2) by simp_all
    with nth [of i] Suc.prems(3) show "fst (K (scan_strings buf (e + 1) (len - (e - p)) ! i)) = None \<and>
                      snd (K (scan_strings buf (e + 1) (len - (e - p)) ! i)) \<noteq> 0"
      by metis
  qed
  have at: "K (scan_strings buf (e + 1) (len - (e - p)) ! k) = (None, 0)"
    using nth [OF Suc.prems(2)] Suc.prems(4) by simp
  have sm: "mode m3 = MSC_MODE_SINGLE \<longrightarrow> length (wins @ [val]) + k \<le> 1"
    using Suc.prems(5) by (simp add: m3_def)
  from Suc.IH [OF a3 kl before at sm] obtain mb where
    "store_scan K buf m3 (e + 1) (len - (e - p)) (wins @ [val]) = Goto_free_win None (m3\<lparr>max_blocks := mb\<rparr>)"
    by blast
  then have "store_scan K buf m p len wins = Goto_free_win None (m\<lparr>max_blocks := mb\<rparr>)"
    using step by (simp add: m3_def)
  then show ?case by blast
qed

text \<open>In single mode the second non-zero entry sends the scan to \<open>free_win\<close> with \<open>-EINVAL\<close>.\<close>

lemma store_scan_single:
  assumes "allocs m = []" and "mode m = MSC_MODE_SINGLE"
    and "Suc 0 < length (scan_strings buf p len)"
    and "\<forall>i<2. fst (K (scan_strings buf p len ! i)) = None \<and> snd (K (scan_strings buf p len ! i)) \<noteq> 0"
  shows "\<exists>mb. store_scan K buf m p len [] = Goto_free_win (Some EINVAL) (m\<lparr>max_blocks := mb\<rparr>)"
proof -
  let ?s = "kstrndup buf p (case memchr buf p CHR '','' len of Some e \<Rightarrow> e - p | None \<Rightarrow> len)"
  obtain ret val where kv: "K ?s = (ret, val)" by (cases "K ?s")
  have "fst (K (scan_strings buf p len ! 0)) = None \<and> snd (K (scan_strings buf p len ! 0)) \<noteq> 0"
    using assms(4) by simp
  with kv have rv: "ret = None" "val \<noteq> 0"
    by (simp_all add: scan_strings_nth0)
  from scan_strings_more [OF assms(3)] obtain e where
    e: "memchr buf p CHR '','' len = Some e" "len - (e - p) \<noteq> 0"
    and nth: "scan_strings buf p len ! Suc 0 = scan_strings buf (e + 1) (len - (e - p)) ! 0"
    by blast
  define m3 where "m3 = m\<lparr>max_blocks := (if val > max_blocks m then val else max_blocks m) mod 2 ^ 32\<rparr>"
  have step: "store_scan K buf m p len [] = store_scan K buf m3 (e + 1) (len - (e - p)) [val]"
    using store_scan_unfold [where K = K and buf = buf and p = p and len = len and wins = "[]",
        OF alloc_ok_nil [OF assms(1)] kv alloc_ok_nil [OF assms(1)] m3_def]
      rv e
    by auto
  let ?s2 = "kstrndup buf (e + 1) (case memchr buf (e + 1) CHR '','' (len - (e - p)) of
                                     Some e' \<Rightarrow> e' - (e + 1) | None \<Rightarrow> len - (e - p))"
  obtain ret2 val2 where kv2: "K ?s2 = (ret2, val2)" by (cases "K ?s2")
  have q: "fst (K (scan_strings buf p len ! Suc 0)) = None \<and> snd (K (scan_strings buf p len ! Suc 0)) \<noteq> 0"
    using assms(4) by simp
  have eq2: "scan_strings buf p len ! Suc 0 = ?s2"
    unfolding nth by (rule scan_strings_nth0)
  from q have "fst (K ?s2) = None \<and> snd (K ?s2) \<noteq> 0"
    unfolding eq2 .
  then have rv2: "ret2 = None" "val2 \<noteq> 0"
    unfolding kv2 by simp_all
  have a3: "allocs m3 = []" and md: "mode m3 = MSC_MODE_SINGLE"
    using assms(1,2) by (simp_all add: m3_def)
  have "store_scan K buf m3 (e + 1) (len - (e - p)) [val] = Goto_free_win (Some EINVAL) m3"
    using store_scan_unfold [where K = K and buf = buf and p = "e + 1" and len = "len - (e - p)"
        and wins = "[val]", OF alloc_ok_nil [OF a3] kv2 alloc_ok_nil [OF a3] refl]
      rv2 md
    by simp
  with step show ?thesis
    by (auto simp: m3_def)
qed

lemma nr_pages_store_unfold:
  assumes "user_count m \<le> 0"
  shows "nr_pages_store K True m buf =
     (case store_scan K buf ((snd (msc_buffer_free_unless_used m))\<lparr>max_blocks := 0\<rparr>) 0 (line_len buf) [] of
        Return_nomem m2 \<Rightarrow> (Inl ENOMEM, m2)
      | Goto_free_win (Some e) m2 \<Rightarrow> (Inl e, m2)
      | Goto_free_win None m2 \<Rightarrow> (Inr (length buf), m2)
      | Scanned wins m2 \<Rightarrow>
          (case msc_buffer_alloc m2 wins of
             (Some e, m3) \<Rightarrow> (Inl e, m3)
           | (None, m3) \<Rightarrow> (Inr (length buf), m3)))"
proof -
  obtain r m1 where f: "msc_buffer_free_unless_used m = (r, m1)"
    by (cases "msc_buffer_free_unless_used m")
  with free_unless_used_counter [OF assms] have "r = None"
    by (simp add: msc_buffer_free_unless_used_def)
  with f show ?thesis
    by (simp add: nr_pages_store_def line_len_def)
qed

text \<open>
  C9, as amended. On a device without users (and with memory for the scan), setting the
  size layout stops at the first entry that reads as zero when the entries before it
  read as non-zero numbers, at most one of them on a single-mode target: the call then
  reports success, the written size, and not \<open>-EINVAL\<close>. A single-mode target rejects
  with \<open>-EINVAL\<close> a list whose first two entries read as non-zero numbers. In both
  cases nothing is allocated: the device is as the initial release left it, up to
  \<open>max_blocks\<close>, with the usage counter negative.
\<close>

theorem size_list_zero_or_single:
  assumes "user_count m \<le> 0" and "allocs m = []"
  shows "(k < length (size_entries buf) \<and>
          (\<forall>i<k. reads_nonzero K (size_entries buf ! i)) \<and>
          K (size_entries buf ! k) = (None, 0) \<and>
          (mode m = MSC_MODE_SINGLE \<longrightarrow> k \<le> 1) \<longrightarrow>
            (\<exists>mb. nr_pages_store K True m buf =
                    (Inr (length buf), (snd (msc_buffer_free_unless_used m))\<lparr>max_blocks := mb\<rparr>))) \<and>
         (mode m = MSC_MODE_SINGLE \<and> 1 < length (size_entries buf) \<and>
          (\<forall>i<2. reads_nonzero K (size_entries buf ! i)) \<longrightarrow>
            (\<exists>mb. nr_pages_store K True m buf =
                    (Inl EINVAL, (snd (msc_buffer_free_unless_used m))\<lparr>max_blocks := mb\<rparr>))) \<and>
         user_count (snd (msc_buffer_free_unless_used m)) < 0"
proof (intro conjI impI)
  let ?m1 = "snd (msc_buffer_free_unless_used m)"
  let ?m2 = "?m1\<lparr>max_blocks := 0\<rparr>"
  have a2: "allocs ?m2 = []"
    using assms(2) free_unless_used_allocs [of m] by (simp add: msc_buffer_free_unless_used_def)
  have md: "mode ?m2 = mode m"
    using free_unless_used_session [of m] by (simp add: msc_buffer_free_unless_used_def)
  show "user_count ?m1 < 0"
    using free_unless_used_counter [OF assms(1)] by (simp add: msc_buffer_free_unless_used_def)
  {
    assume h: "k < length (size_entries buf) \<and>
          (\<forall>i<k. reads_nonzero K (size_entries buf ! i)) \<and>
          K (size_entries buf ! k) = (None, 0) \<and>
          (mode m = MSC_MODE_SINGLE \<longrightarrow> k \<le> 1)"
    then have "\<exists>mb. store_scan K buf ?m2 0 (line_len buf) [] = Goto_free_win None (?m2\<lparr>max_blocks := mb\<rparr>)"
      using store_scan_zero [OF a2, of k buf 0 "line_len buf" K "[]"] md
      by (simp add: size_entries_def reads_nonzero_def)
    then obtain mb where "store_scan K buf ?m2 0 (line_len buf) [] = Goto_free_win None (?m1\<lparr>max_blocks := mb\<rparr>)"
      by auto
    then have "nr_pages_store K True m buf = (Inr (length buf), ?m1\<lparr>max_blocks := mb\<rparr>)"
      by (simp add: nr_pages_store_unfold [OF assms(1)])
    then show "\<exists>mb. nr_pages_store K True m buf = (Inr (length buf), ?m1\<lparr>max_blocks := mb\<rparr>)"
      by blast
  }
  {
    assume h: "mode m = MSC_MODE_SINGLE \<and> 1 < length (size_entries buf) \<and>
          (\<forall>i<2. reads_nonzero K (size_entries buf ! i))"
    then have "\<exists>mb. store_scan K buf ?m2 0 (line_len buf) [] = Goto_free_win (Some EINVAL) (?m2\<lparr>max_blocks := mb\<rparr>)"
      using store_scan_single [OF a2, of buf 0 "line_len buf" K] md
      by (simp add: size_entries_def reads_nonzero_def)
    then obtain mb where "store_scan K buf ?m2 0 (line_len buf) [] = Goto_free_win (Some EINVAL) (?m1\<lparr>max_blocks := mb\<rparr>)"
      by auto
    then have "nr_pages_store K True m buf = (Inl EINVAL, ?m1\<lparr>max_blocks := mb\<rparr>)"
      by (simp add: nr_pages_store_unfold [OF assms(1)])
    then show "\<exists>mb. nr_pages_store K True m buf = (Inl EINVAL, ?m1\<lparr>max_blocks := mb\<rparr>)"
      by blast
  }
qed

lemma size_entries_examples:
  "size_entries ''2,0'' = [''2'', ''0'']" "size_entries ''4,8'' = [''4'', ''8'']"
  by (simp_all add: size_entries_def line_len_def scan_strings.simps memchr_def kstrndup_def
      mem_at_def upt_rec)

lemma kstrtoul_dec_examples:
  "kstrtoul_dec ''0'' = (None, 0)" "kstrtoul_dec ''2'' = (None, 2)"
  "kstrtoul_dec ''4'' = (None, 4)" "kstrtoul_dec ''8'' = (None, 8)"
  by (simp_all add: kstrtoul_dec_def is_digit_def digits_val_def)

theorem size_list_zero_or_single_witness:
  "user_count ex_idle \<le> 0 \<and> allocs ex_idle = [] \<and>
   size_entries ''2,0'' = [''2'', ''0''] \<and> reads_nonzero kstrtoul_dec ''2'' \<and>
   kstrtoul_dec ''0'' = (None, 0) \<and>
   fst (nr_pages_store kstrtoul_dec True ex_idle ''2,0'') = Inr 3 \<and>
   user_count (snd (nr_pages_store kstrtoul_dec True ex_idle ''2,0'')) < 0 \<and>
   mode ex_single_idle = MSC_MODE_SINGLE \<and> user_count ex_single_idle \<le> 0 \<and>
   size_entries ''4,8'' = [''4'', ''8''] \<and> reads_nonzero kstrtoul_dec ''4'' \<and>
   reads_nonzero kstrtoul_dec ''8'' \<and>
   fst (nr_pages_store kstrtoul_dec True ex_single_idle ''4,8'') = Inl EINVAL \<and>
   user_count (snd (nr_pages_store kstrtoul_dec True ex_single_idle ''4,8'')) < 0"
proof -
  have i1: "user_count ex_idle \<le> 0" "allocs ex_idle = []" "mode ex_idle \<noteq> MSC_MODE_SINGLE"
    and s1: "user_count ex_single_idle \<le> 0" "allocs ex_single_idle = []"
      "mode ex_single_idle = MSC_MODE_SINGLE"
    by (simp_all add: ex_defs ex_single_idle_def)
  have nz: "reads_nonzero kstrtoul_dec ''2''" "reads_nonzero kstrtoul_dec ''4''"
    "reads_nonzero kstrtoul_dec ''8''"
    by (simp_all add: reads_nonzero_def kstrtoul_dec_examples)
  have z: "1 < length (size_entries ''2,0'') \<and>
           (\<forall>i<1. reads_nonzero kstrtoul_dec (size_entries ''2,0'' ! i)) \<and>
           kstrtoul_dec (size_entries ''2,0'' ! 1) = (None, 0) \<and>
           (mode ex_idle = MSC_MODE_SINGLE \<longrightarrow> (1::nat) \<le> 1)"
    by (simp add: size_entries_examples nz kstrtoul_dec_examples)
  have two: "\<forall>i<2. reads_nonzero kstrtoul_dec (size_entries ''4,8'' ! i)"
    by (simp add: size_entries_examples nz less_Suc_eq numeral_2_eq_2)
  have sg: "mode ex_single_idle = MSC_MODE_SINGLE \<and> 1 < length (size_entries ''4,8'') \<and>
           (\<forall>i<2. reads_nonzero kstrtoul_dec (size_entries ''4,8'' ! i))"
    using two s1(3) by (simp add: size_entries_examples)
  from size_list_zero_or_single [OF i1(1,2), of 1 "''2,0''" kstrtoul_dec] z
  obtain mb where r1: "nr_pages_store kstrtoul_dec True ex_idle ''2,0'' =
      (Inr (length ''2,0''), (snd (msc_buffer_free_unless_used ex_idle))\<lparr>max_blocks := mb\<rparr>)"
    and u1: "user_count (snd (msc_buffer_free_unless_used ex_idle)) < 0"
    by blast
  from size_list_zero_or_single [OF s1(1,2), of 1 "''4,8''" kstrtoul_dec] sg
  obtain mb' where r2: "nr_pages_store kstrtoul_dec True ex_single_idle ''4,8'' =
      (Inl EINVAL, (snd (msc_buffer_free_unless_used ex_single_idle))\<lparr>max_blocks := mb'\<rparr>)"
    and u2: "user_count (snd (msc_buffer_free_unless_used ex_single_idle)) < 0"
    by blast
  have "fst (nr_pages_store kstrtoul_dec True ex_idle ''2,0'') = Inr 3"
    and "user_count (snd (nr_pages_store kstrtoul_dec True ex_idle ''2,0'')) < 0"
    using u1 by (simp_all add: r1)
  moreover have "fst (nr_pages_store kstrtoul_dec True ex_single_idle ''4,8'') = Inl EINVAL"
    and "user_count (snd (nr_pages_store kstrtoul_dec True ex_single_idle ''4,8'')) < 0"
    using u2 by (simp_all add: r2)
  ultimately show ?thesis
    using i1 s1 nz size_entries_examples kstrtoul_dec_examples by simp
qed

text \<open>
  C9 as stated fails. The list \<open>0\<close> is not rejected: the call returns the written
  size, 1. And a single-mode target does not reject the two-entry list \<open>4,0\<close>: the call
  returns the written size, 3.
\<close>

theorem zero_entry_counterexample:
  "nr_pages_store kstrtoul_dec True ex_unallocated ''0'' = (Inr 1, ex_unallocated) \<and>
   fst (nr_pages_store kstrtoul_dec True ex_single ''4,0'') = Inr 3"
  by (simp add: nr_pages_store_def msc_buffer_free_unless_used_def
      msc_buffer_unlocked_free_unless_used_def store_scan.simps memchr_def kstrndup_def
      mem_at_def upt_rec alloc_ok_def ex_defs kstrtoul_dec_def is_digit_def digits_val_def)

section \<open>Reader sessions and capture exclude each other\<close>

lemma nr_pages_store_session:
  "enabled (snd (nr_pages_store K capable m buf)) = enabled m \<and>
   iter_list (snd (nr_pages_store K capable m buf)) = iter_list m"
proof (cases capable)
  case False
  then show ?thesis by (simp add: nr_pages_store_def)
next
  case True
  obtain r m1 where f: "msc_buffer_free_unless_used m = (r, m1)"
    by (cases "msc_buffer_free_unless_used m")
  with free_unless_used_session [of m] have s1: "enabled m1 = enabled m" "iter_list m1 = iter_list m"
    by (simp_all add: msc_buffer_free_unless_used_def)
  define len where "len = line_len buf"
  define sc where "sc = store_scan K buf (m1\<lparr>max_blocks := 0\<rparr>) 0 len []"
  have "same_control (m1\<lparr>max_blocks := 0\<rparr>) (scan_msc sc)"
    unfolding sc_def by (rule store_scan_control)
  then have s2: "enabled (scan_msc sc) = enabled m" "iter_list (scan_msc sc) = iter_list m"
    using s1 by (simp_all add: same_control_def)
  show ?thesis
  proof (cases r)
    case (Some e)
    with True f s1 show ?thesis by (simp add: nr_pages_store_def)
  next
    case None
    have eq: "nr_pages_store K capable m buf =
              (case sc of
                 Return_nomem m2 \<Rightarrow> (Inl ENOMEM, m2)
               | Goto_free_win (Some e) m2 \<Rightarrow> (Inl e, m2)
               | Goto_free_win None m2 \<Rightarrow> (Inr (length buf), m2)
               | Scanned wins m2 \<Rightarrow>
                   (case msc_buffer_alloc m2 wins of
                      (Some e, m3) \<Rightarrow> (Inl e, m3)
                    | (None, m3) \<Rightarrow> (Inr (length buf), m3)))"
      using True f None by (simp add: nr_pages_store_def sc_def len_def line_len_def)
    show ?thesis
    proof (cases sc)
      case (Goto_free_win ret m2)
      with s2 show ?thesis unfolding eq by (cases ret) simp_all
    next
      case (Return_nomem m2)
      with s2 show ?thesis unfolding eq by simp
    next
      case (Scanned wins m2)
      obtain r3 m3 where a: "msc_buffer_alloc m2 wins = (r3, m3)"
        by (cases "msc_buffer_alloc m2 wins")
      with buffer_alloc_session [of m2 wins] have "enabled m3 = enabled m2" "iter_list m3 = iter_list m2"
        by simp_all
      with Scanned s2 a show ?thesis unfolding eq by (cases r3) simp_all
    qed
  qed
qed

lemma clear_hw_header_session:
  "enabled (msc_buffer_clear_hw_header m) = enabled m \<and>
   iter_list (msc_buffer_clear_hw_header m) = iter_list m"
  by (simp add: msc_buffer_clear_hw_header_def)

lemma open_keeps_exclusion:
  assumes "\<not> (enabled m \<and> iter_list m \<noteq> [])"
  shows "\<not> (enabled (snd (intel_th_msc_open capable m i)) \<and>
            iter_list (snd (intel_th_msc_open capable m i)) \<noteq> [])"
proof -
  obtain ok m1 where a: "alloc_ok m = (ok, m1)" by (cases "alloc_ok m")
  with alloc_ok_control [of m] have "enabled m1 = enabled m" "iter_list m1 = iter_list m"
    by (simp_all add: same_control_def)
  with a assms show ?thesis
    by (cases ok) (auto simp: intel_th_msc_open_def msc_iter_install_def)
qed

lemma activate_keeps_exclusion:
  assumes "\<not> (enabled m \<and> iter_list m \<noteq> [])"
  shows "\<not> (enabled (snd (intel_th_msc_activate m)) \<and>
            iter_list (snd (intel_th_msc_activate m)) \<noteq> [])"
  using assms
  by (auto simp: intel_th_msc_activate_def user_count_inc_unless_negative_def
      msc_configure_def Let_def clear_hw_header_session split: if_splits)

lemma wrap_store_session:
  "enabled (snd (wrap_store K m buf)) = enabled m \<and>
   iter_list (snd (wrap_store K m buf)) = iter_list m"
  by (simp add: wrap_store_def wrap_unit_store_def wrap_unit_load_def
      split: prod.splits option.splits)

text \<open>When every operation is one step, no step breaks the exclusion.\<close>

lemma step_keeps_exclusion:
  assumes "step m m'" and "\<not> (enabled m \<and> iter_list m \<noteq> [])"
  shows "\<not> (enabled m' \<and> iter_list m' \<noteq> [])"
  using assms
proof (induction rule: step.induct)
  case (s_env m m')
  then show ?case by (auto simp: environment_def)
next
  case (s_open m capable i)
  then show ?case by (intro open_keeps_exclusion)
next
  case (s_release i m)
  then show ?case
    by (auto simp: intel_th_msc_release_def msc_iter_remove_def)
next
  case (s_activate m)
  then show ?case by (intro activate_keeps_exclusion)
next
  case (s_deactivate m)
  then show ?case
    by (auto simp: intel_th_msc_deactivate_def msc_disable_def Let_def)
next
  case (s_mode m i')
  obtain r m1 where f: "msc_buffer_unlocked_free_unless_used m = (r, m1)"
    by (cases "msc_buffer_unlocked_free_unless_used m")
  with free_unless_used_session [of m] have "enabled m1 = enabled m" "iter_list m1 = iter_list m"
    by simp_all
  with f s_mode show ?case
    by (cases r) (simp_all add: mode_store_found_def)
next
  case (s_nr_pages m K capable buf)
  then show ?case
    using nr_pages_store_session [of K capable m buf] by simp
next
  case (s_wrap m K buf)
  then show ?case
    using wrap_store_session [of K m buf] by simp
qed

lemma serial_invariant: "serial m \<Longrightarrow> \<not> (enabled m \<and> iter_list m \<noteq> [])"
proof (induction rule: serial.induct)
  case (ser_init s)
  show ?case by (simp add: intel_th_msc_init_def msc_zeroed_def)
next
  case (ser_step m m')
  from ser_step(2) ser_step(3) show ?case by (rule step_keeps_exclusion)
qed

text \<open>
  The two tests. While capture is enabled, opening a reader session installs no
  iterator, and it fails with \<open>-EBUSY\<close> when the caller is privileged and the iterator
  could be allocated. While the iterator list is not empty, \<open>intel_th_msc_activate\<close>
  leaves the capture flag as it is and fails, with \<open>-EBUSY\<close> when a buffer is allocated.
\<close>

lemma exclusion_tests:
  "(enabled m \<longrightarrow>
      iter_list (snd (intel_th_msc_open capable m i)) = iter_list m \<and>
      (capable \<and> fst (alloc_ok m) \<longrightarrow> fst (intel_th_msc_open capable m i) = Inl EBUSY)) \<and>
   (iter_list m \<noteq> [] \<longrightarrow>
      enabled (snd (intel_th_msc_activate m)) = enabled m \<and>
      fst (intel_th_msc_activate m) = Some (if user_count m < 0 then ENODEV else EBUSY))"
proof (intro conjI impI)
  assume en: "enabled m"
  obtain ok m1 where a: "alloc_ok m = (ok, m1)" by (cases "alloc_ok m")
  with alloc_ok_control [of m] have s: "enabled m1 = enabled m" "iter_list m1 = iter_list m"
    by (simp_all add: same_control_def)
  with a en show "iter_list (snd (intel_th_msc_open capable m i)) = iter_list m"
    by (cases ok) (auto simp: intel_th_msc_open_def msc_iter_install_def)
  assume "capable \<and> fst (alloc_ok m)"
  with a s en show "fst (intel_th_msc_open capable m i) = Inl EBUSY"
    by (auto simp: intel_th_msc_open_def msc_iter_install_def)
next
  assume ne: "iter_list m \<noteq> []"
  then show "enabled (snd (intel_th_msc_activate m)) = enabled m"
    by (auto simp: intel_th_msc_activate_def user_count_inc_unless_negative_def)
  from ne show "fst (intel_th_msc_activate m) = Some (if user_count m < 0 then ENODEV else EBUSY)"
    by (auto simp: intel_th_msc_activate_def user_count_inc_unless_negative_def)
qed

text \<open>The run in which a \<open>wrap_store\<close> overlaps the end of a capture, state by state.\<close>

lemma relink_allocs: "allocs (msc_buffer_relink m) = allocs m"
proof -
  have "allocs (fold (\<lambda>w m. m\<lparr>win_list := (win_list m)[w := relink_win m w]\<rparr>) ws m) = allocs m"
    for ws
    by (induction ws arbitrary: m) simp_all
  then show ?thesis
    by (simp add: msc_buffer_relink_def)
qed

lemma multi_alloc_loop_allocs:
  "allocs m = [] \<Longrightarrow> allocs (snd (multi_alloc_loop m ps)) = []"
proof (induction ps arbitrary: m)
  case Nil
  then show ?case by simp
next
  case (Cons p ps)
  obtain r m1 where a: "msc_buffer_win_alloc m (p mod 2 ^ 32) = (r, m1)"
    by (cases "msc_buffer_win_alloc m (p mod 2 ^ 32)")
  with win_alloc_script [of m "p mod 2 ^ 32"] Cons.prems
  have "r = None" "allocs m1 = []"
    by simp_all
  with a Cons.IH [of m1] show ?case by simp
qed

lemma ex_scan:
  "store_scan kstrtoul_dec ''1'' (ex_unallocated\<lparr>max_blocks := 0\<rparr>) 0 (line_len ''1'') [] =
     Scanned [1] (ex_unallocated\<lparr>max_blocks := 1\<rparr>)"
  by (simp add: store_scan.simps line_len_def memchr_def kstrndup_def mem_at_def upt_rec
      alloc_ok_def ex_defs kstrtoul_dec_def is_digit_def digits_val_def)

lemma ex_buffer_fields:
  "user_count ex_buffer = 0" "iter_list ex_buffer = []" "\<not> enabled ex_buffer"
  "mode ex_buffer = MSC_MODE_MULTI" "allocs ex_buffer = []"
proof -
  let ?m = "ex_unallocated\<lparr>max_blocks := 1\<rparr>"
  have u: "user_count ex_unallocated \<le> 0"
    and f: "snd (msc_buffer_free_unless_used ex_unallocated) = ex_unallocated"
    by (simp_all add: ex_defs msc_buffer_free_unless_used_def
        msc_buffer_unlocked_free_unless_used_def)
  have m: "mode ?m = MSC_MODE_MULTI" "user_count ?m = - 1" "allocs ?m = []"
    "iter_list ?m = []" "\<not> enabled ?m"
    by (simp_all add: ex_defs)
  have ok: "fst (msc_buffer_alloc ?m [1]) = None" "user_count (snd (msc_buffer_alloc ?m [1])) = 0"
    using multi_alloc_succeeds [OF m(1,2), of "[1]"] m(3) by simp_all
  have b: "ex_buffer = snd (msc_buffer_alloc ?m [1])"
    unfolding ex_buffer_def nr_pages_store_unfold [OF u] f ex_scan
    by (auto split: prod.splits option.splits)
  show "user_count ex_buffer = 0"
    unfolding b by (rule ok(2))
  show "iter_list ex_buffer = []" "\<not> enabled ex_buffer" "mode ex_buffer = MSC_MODE_MULTI"
    unfolding b using buffer_alloc_session [of ?m "[1]"] m by simp_all
  have "allocs (snd (multi_alloc_loop ?m [1])) = []"
    using m(3) by (rule multi_alloc_loop_allocs)
  then show "allocs ex_buffer = []"
    unfolding b using m(1,2)
    by (simp add: msc_buffer_alloc_def msc_buffer_multi_alloc_def relink_allocs
        split: prod.splits option.splits)
qed

lemma ex_capture_fields:
  "enabled ex_capture" "iter_list ex_capture = []" "allocs ex_capture = []"
  "user_count ex_capture = 1"
  by (simp_all add: ex_capture_def intel_th_msc_activate_def user_count_inc_unless_negative_def
      msc_configure_def msc_buffer_clear_hw_header_def Let_def ex_buffer_fields)

lemma ex_reader_fields:
  "\<not> enabled ex_reader" "iter_list ex_reader = [7]" "user_count ex_reader = 0"
  by (simp_all add: ex_reader_def intel_th_msc_open_def msc_iter_install_def alloc_ok_def
      intel_th_msc_deactivate_def msc_disable_def Let_def ex_capture_fields)

lemma ex_race_run: "run ex_unallocated ex_race"
proof -
  have "run ex_unallocated ex_buffer"
    unfolding ex_buffer_def by (intro run_step [OF run_refl] s_nr_pages)
  then have c: "run ex_unallocated ex_capture"
    unfolding ex_capture_def by (rule run_step) (rule s_activate)
  have "run ex_capture (intel_th_msc_deactivate ex_capture)"
    by (intro run_step [OF run_refl] s_deactivate)
  then have "run ex_capture ex_reader"
    unfolding ex_reader_def by (rule run_step) (rule s_open)
  with c show ?thesis
    unfolding ex_race_def by (rule run_wrap)
qed

text \<open>
  C8 at that run. Opening the reader session and starting the capture do test each
  other's flag, each in the section that holds \<open>buf_mutex\<close>, and with every operation
  one step the exclusion holds in every state. But \<open>wrap_store\<close> rewrites the word that
  holds \<open>enabled\<close> outside the lock: when it loads the word during a capture and stores
  it after the capture was stopped and a reader has opened the device, the device is in
  a state with capture enabled and a reader session open.
\<close>

theorem wrap_store_breaks_exclusion:
  "reachable ex_race \<and> enabled ex_race \<and> iter_list ex_race = [7] \<and>
   enabled ex_capture \<and> iter_list ex_capture = [] \<and>
   \<not> enabled ex_reader \<and> iter_list ex_reader = [7]"
proof -
  have "intel_th_msc_init (msc_zeroed\<lparr>dma_shared := True\<rparr>) = ex_unallocated"
    by (simp add: ex_defs)
  with ex_race_run have "run (intel_th_msc_init (msc_zeroed\<lparr>dma_shared := True\<rparr>)) ex_race"
    by simp
  then have "reachable ex_race" by (rule r_run)
  moreover have "enabled ex_race" "iter_list ex_race = [7]"
    by (simp_all add: ex_race_def wrap_unit_store_def wrap_unit_load_def ex_capture_fields
        ex_reader_fields)
  ultimately show ?thesis
    using ex_capture_fields ex_reader_fields by simp
qed

text \<open>That state is reached through the overlap only: no run of whole operations reaches it.\<close>

theorem wrap_store_breaks_exclusion_witness: "\<not> serial ex_race"
proof
  assume "serial ex_race"
  then have "\<not> (enabled ex_race \<and> iter_list ex_race \<noteq> [])"
    by (rule serial_invariant)
  with wrap_store_breaks_exclusion show False
    by simp
qed

text \<open>
  On the states of the run the two tests refuse with \<open>-EBUSY\<close>: a reader cannot open
  the device during the capture, and a capture cannot start while the reader is there.
\<close>

lemma ex_refusals:
  "fst (intel_th_msc_open True ex_capture 8) = Inl EBUSY \<and>
   fst (intel_th_msc_activate ex_reader) = Some EBUSY"
  using exclusion_tests [of ex_capture True 8] exclusion_tests [of ex_reader]
  by (simp add: ex_capture_fields ex_reader_fields alloc_ok_def)

section \<open>Sequential read of a single-mode buffer\<close>

lemma mem_read_take_drop:
  assumes "s + n \<le> length mem"
  shows "mem_read mem s n = take n (drop s mem)"
proof (rule nth_equalityI)
  show "length (mem_read mem s n) = length (take n (drop s mem))"
    using assms by (simp add: mem_read_def)
next
  fix i assume "i < length (mem_read mem s n)"
  then have i: "i < n" by (simp add: mem_read_def)
  with assms have "s + i < length mem" by simp
  with i show "mem_read mem s n ! i = take n (drop s mem) ! i"
    by (simp add: mem_read_def)
qed

lemma copy_to_user_fits:
  "length (ubytes u) + length bs \<le> ucap u \<Longrightarrow>
   copy_to_user u bs = (0, u\<lparr>ubytes := ubytes u @ bs\<rparr>)"
proof -
  assume "length (ubytes u) + length bs \<le> ucap u"
  then have "min (length bs) (ucap u - length (ubytes u)) = length bs"
    by simp
  then show ?thesis
    by (simp add: copy_to_user_def Let_def)
qed

text \<open>Masking with \<open>size - 1\<close> is reduction modulo \<open>size\<close> when \<open>size\<close> is a power of two.\<close>

lemma and_size_mask:
  fixes x :: nat
  assumes "sz = 2 ^ k" and "sz < 2 ^ 64"
  shows "x AND sub_ul sz 1 = x mod sz"
proof -
  have "1 \<le> sz" using assms(1) by simp
  then have "sub_ul sz 1 = sz - 1"
    using assms(2) by (rule sub_ul_eq)
  also have "\<dots> = mask k"
    by (simp add: assms(1) mask_eq_exp_minus_1)
  finally show ?thesis
    by (simp add: assms(1) take_bit_eq_mask [symmetric] take_bit_eq_mod)
qed

text \<open>The second copy, when the read stays inside the region and the reader has room.\<close>

lemma single_second_copy:
  assumes "start + min rem (sub_ul in_sz start) \<le> length mem"
    and "length (ubytes u1) + min rem (sub_ul in_sz start) \<le> ucap u1"
    and "rem \<noteq> 0"
  shows "(let tocopy = min rem (sub_ul in_sz start)
          in case copy_to_user u1 (mem_read mem start tocopy) of
               (r, u2) \<Rightarrow> if r \<noteq> 0 then (Inl EFAULT, u2) else (Inr (len - (rem - tocopy)), u2)) =
         (Inr (len - (rem - min rem (sub_ul in_sz start))),
          u1\<lparr>ubytes := ubytes u1 @ take (min rem (sub_ul in_sz start)) (drop start mem)\<rparr>)"
proof -
  define t where "t = min rem (sub_ul in_sz start)"
  have "copy_to_user u1 (mem_read mem start t) = (0, u1\<lparr>ubytes := ubytes u1 @ take t (drop start mem)\<rparr>)"
    using assms(1,2) unfolding t_def [symmetric]
    by (simp add: mem_read_take_drop copy_to_user_fits)
  then show ?thesis
    unfolding t_def [symmetric] Let_def by simp
qed

text \<open>
  C7 at a buffer of three pages that has wrapped, with the write offset at the start of
  the second page: a read of the whole buffer from offset 0 copies the second and third
  page, and then the third page once more where the first page is due.
\<close>

theorem single_read_three_pages:
  "intel_th_msc_read 0 ex_hw ex_three_pages msc_iter_init ex_ubuf 12288 0 =
     Some (Inr 12288, ex_three_pages, msc_iter_init,
           ex_ubuf\<lparr>ubytes := replicate 4096 2 @ replicate 4096 3 @ replicate 4096 3\<rparr>, 12288)"
proof -
  let ?mem = "replicate 4096 1 @ replicate 4096 2 @ replicate 4096 (3 :: 8 word)"
  have m: "sub_ul 12288 (Suc 0) = 12287" "sub_ul 4096 8192 = 18446744073709547520"
    by (simp_all add: sub_ul_def)
  have ub: "ucap ex_ubuf = 65536" "ubytes ex_ubuf = []"
    by (simp_all add: ex_ubuf_def)
  have w: "single_wrapped ?mem 12288 4096 12288 ex_ubuf =
           (Inr (8192, 4096), ex_ubuf\<lparr>ubytes := replicate 4096 2 @ replicate 4096 3\<rparr>)"
    by (simp add: single_wrapped_def m mem_read_take_drop copy_to_user_fits ub)
  have s: "msc_single_to_user ?mem 3 4096 True ex_ubuf 0 12288 =
           (Inr 12288, ex_ubuf\<lparr>ubytes := replicate 4096 2 @ replicate 4096 3 @ replicate 4096 3\<rparr>)"
    by (simp add: msc_single_to_user_def PAGE_SHIFT_def w m mem_read_take_drop copy_to_user_fits ub)
  have d: "mode ex_three_pages = MSC_MODE_SINGLE" "single_wrap ex_three_pages"
    "nr_pages ex_three_pages = 3" "single_sz ex_three_pages = 4096"
    "base_mem ex_three_pages = ?mem" "user_count ex_three_pages = 0"
    by (simp_all add: ex_three_pages_def ex_defs)
  show ?thesis
    by (simp add: intel_th_msc_read_def user_count_inc_unless_negative_def d PAGE_SHIFT_def s)
qed

text \<open>
  The bytes that read delivers are not the buffer's contents oldest first, which are the
  second page, the third page and the first page.
\<close>

theorem single_read_three_pages_witness:
  "map_option (\<lambda>r. (fst r, ubytes (fst (snd (snd (snd r))))))
     (intel_th_msc_read 0 ex_hw ex_three_pages msc_iter_init ex_ubuf 12288 0) =
     Some (Inr 12288, replicate 4096 2 @ replicate 4096 3 @ replicate 4096 3) \<and>
   replicate 4096 2 @ replicate 4096 3 @ replicate 4096 (3 :: 8 word) \<noteq>
     drop 4096 (base_mem ex_three_pages) @ take 4096 (base_mem ex_three_pages)"
proof -
  have "map_option (\<lambda>r. (fst r, ubytes (fst (snd (snd (snd r))))))
     (intel_th_msc_read 0 ex_hw ex_three_pages msc_iter_init ex_ubuf 12288 0) =
     Some (Inr 12288, replicate 4096 2 @ replicate 4096 3 @ replicate 4096 3)"
    unfolding single_read_three_pages by simp
  moreover have "base_mem ex_three_pages =
                 replicate 4096 1 @ replicate 4096 2 @ replicate 4096 3"
    by (simp add: ex_three_pages_def ex_defs)
  ultimately show ?thesis by simp
qed

text \<open>
  The rest of C7 holds. Without a wrap the read yields the bytes below the write offset:
  the four-page scenario returns \<open>2 * 4096 + 100\<close> bytes from offset 0 and nothing from
  offset \<open>2 * 4096 + 100\<close>.
\<close>

lemma single_read_not_wrapped:
  assumes "off + len \<le> in_sz" and "in_sz \<le> length mem" and "in_sz < 2 ^ 64"
    and "length (ubytes u) + len \<le> ucap u"
  shows "msc_single_to_user mem in_pages in_sz False u off len =
         (Inr len, u\<lparr>ubytes := ubytes u @ take len (drop off mem)\<rparr>)"
proof (cases "len = 0")
  case True
  then show ?thesis by (simp add: msc_single_to_user_def)
next
  case False
  have "off \<le> in_sz" using assms(1) by simp
  then have sb: "sub_ul in_sz off = in_sz - off"
    using assms(3) by (rule sub_ul_eq)
  then have mn: "min len (sub_ul in_sz off) = len"
    using assms(1) by simp
  have "off + min len (sub_ul in_sz off) \<le> length mem"
    and "length (ubytes u) + min len (sub_ul in_sz off) \<le> ucap u"
    using assms(1,2,4) by (simp_all only: mn)
  from single_second_copy [OF this False, of len] False show ?thesis
    by (simp add: msc_single_to_user_def mn)
qed

lemma four_page_scenario:
  "intel_th_msc_read 0 ex_hw ex_four_pages msc_iter_init ex_ubuf 65536 0 =
     Some (Inr (2 * 4096 + 100), ex_four_pages, msc_iter_init,
           ex_ubuf\<lparr>ubytes := replicate (2 * 4096 + 100) 5\<rparr>, 2 * 4096 + 100)"
  "intel_th_msc_read 0 ex_hw ex_four_pages msc_iter_init ex_ubuf 65536 (2 * 4096 + 100) =
     Some (Inr 0, ex_four_pages, msc_iter_init, ex_ubuf, 2 * 4096 + 100)"
proof -
  let ?mem = "replicate 8292 5 @ replicate 8092 (0 :: 8 word)"
  have ub: "ucap ex_ubuf = 65536" "ubytes ex_ubuf = []"
    by (simp_all add: ex_ubuf_def)
  have d: "mode ex_four_pages = MSC_MODE_SINGLE" "\<not> single_wrap ex_four_pages"
    "nr_pages ex_four_pages = 4" "single_sz ex_four_pages = 8292"
    "base_mem ex_four_pages = ?mem" "user_count ex_four_pages = 0"
    by (simp_all add: ex_four_pages_def ex_defs)
  have s: "msc_single_to_user ?mem 4 8292 False ex_ubuf 0 8292 =
           (Inr 8292, ex_ubuf\<lparr>ubytes := ubytes ex_ubuf @ take 8292 (drop 0 ?mem)\<rparr>)"
    by (rule single_read_not_wrapped) (simp_all add: ub)
  show "intel_th_msc_read 0 ex_hw ex_four_pages msc_iter_init ex_ubuf 65536 0 =
     Some (Inr (2 * 4096 + 100), ex_four_pages, msc_iter_init,
           ex_ubuf\<lparr>ubytes := replicate (2 * 4096 + 100) 5\<rparr>, 2 * 4096 + 100)"
    by (simp add: intel_th_msc_read_def user_count_inc_unless_negative_def d s ub)
  show "intel_th_msc_read 0 ex_hw ex_four_pages msc_iter_init ex_ubuf 65536 (2 * 4096 + 100) =
     Some (Inr 0, ex_four_pages, msc_iter_init, ex_ubuf, 2 * 4096 + 100)"
    by (simp add: intel_th_msc_read_def user_count_inc_unless_negative_def d)
qed

text \<open>
  With a wrap the read is chronological whenever the size of the region is a power of
  two: it yields the bytes from the write offset to the end of the region and then those
  from the start of the region to the write offset, from \<open>off\<close> on.
\<close>

lemma single_read_wrapped_power_of_two:
  assumes "in_pages * 2 ^ PAGE_SHIFT = 2 ^ k" and "k < 64"
    and "length mem = 2 ^ k" and "in_sz < 2 ^ k" and "off + len \<le> 2 ^ k"
    and "length (ubytes u) + len \<le> ucap u"
  shows "msc_single_to_user mem in_pages in_sz True u off len =
         (Inr len, u\<lparr>ubytes := ubytes u @ take len (drop off (drop in_sz mem @ take in_sz mem))\<rparr>)"
proof -
  define sz :: nat where "sz = 2 ^ k"
  have szlt: "sz < 2 ^ 64"
    unfolding sz_def by (rule power_strict_increasing [OF assms(2)]) simp
  have szle: "2 * sz \<le> 2 ^ 64"
  proof -
    have "Suc k \<le> 64" using assms(2) by simp
    then have "(2::nat) ^ Suc k \<le> 2 ^ 64" by (rule power_increasing) simp
    then show ?thesis by (simp add: sz_def)
  qed
  have szmod: "(in_pages * 2 ^ PAGE_SHIFT) mod 2 ^ 64 = sz"
    using szlt assms(1) by (simp add: sz_def)
  have len_mem: "length mem = sz" and isz: "in_sz < sz" and ol: "off + len \<le> sz"
    using assms(3,4,5) by (simp_all add: sz_def)
  have mask: "\<And>x. x AND sub_ul sz (Suc 0) = x mod sz"
    using and_size_mask [OF sz_def szlt] by simp
  define start0 where "start0 = off + in_sz"
  have s0lt: "start0 < 2 ^ 64"
    using isz ol szle by (simp add: start0_def)
  then have s0mod: "(off + in_sz) mod 2 ^ 64 = start0"
    by (simp add: start0_def)
  have inlt: "in_sz < 2 ^ 64" using isz szlt by simp
  show ?thesis
  proof (cases "start0 < sz")
    case True
    define t1 where "t1 = min len (sz - start0)"
    have c1: "copy_to_user u (mem_read mem start0 t1) =
              (0, u\<lparr>ubytes := ubytes u @ take t1 (drop start0 mem)\<rparr>)"
      using True len_mem assms(6) by (simp add: t1_def mem_read_take_drop copy_to_user_fits)
    have w: "single_wrapped mem sz start0 len u =
             (Inr ((start0 + t1) mod sz, len - t1), u\<lparr>ubytes := ubytes u @ take t1 (drop start0 mem)\<rparr>)"
      using True c1 by (simp add: single_wrapped_def Let_def t1_def [symmetric] mask)
    show ?thesis
    proof (cases "len - t1 = 0")
      case z: True
      then have "t1 = len" by (simp add: t1_def)
      then have le: "len \<le> sz - start0" by (simp add: t1_def)
      have "take len (drop off (drop in_sz mem @ take in_sz mem)) = take len (drop start0 mem)"
        using le True len_mem isz by (simp add: start0_def add.commute)
      with z \<open>t1 = len\<close> show ?thesis
        unfolding msc_single_to_user_def Let_def szmod s0mod if_True w by simp
    next
      case nz: False
      then have t1: "t1 = sz - start0" and gt: "sz - start0 < len"
        by (simp_all add: t1_def min_def split: if_splits)
      have st: "(start0 + t1) mod sz = 0"
        using True t1 by simp
      have rem: "len - t1 \<le> in_sz"
        using t1 ol True by (simp add: start0_def)
      then have mn: "min (len - t1) (sub_ul in_sz 0) = len - t1"
        using inlt by (simp add: sub_ul_eq)
      let ?u1 = "u\<lparr>ubytes := ubytes u @ take t1 (drop start0 mem)\<rparr>"
      have "0 + min (len - t1) (sub_ul in_sz 0) \<le> length mem"
        and "length (ubytes ?u1) + min (len - t1) (sub_ul in_sz 0) \<le> ucap ?u1"
        using rem isz len_mem assms(6) gt True t1 by (simp_all only: mn) simp_all
      from single_second_copy [OF this nz, of len]
      have sc: "(let tocopy = min (len - t1) (sub_ul in_sz 0)
                 in case copy_to_user ?u1 (mem_read mem 0 tocopy) of
                      (r, u2) \<Rightarrow> if r \<noteq> 0 then (Inl EFAULT, u2)
                                 else (Inr (len - (len - t1 - tocopy)), u2)) =
                (Inr len, ?u1\<lparr>ubytes := ubytes ?u1 @ take (len - t1) mem\<rparr>)"
        by (simp add: mn)
      have "take len (drop off (drop in_sz mem @ take in_sz mem)) =
            drop start0 mem @ take (len - t1) mem"
        using True len_mem isz rem t1 gt by (simp add: start0_def add.commute min_def)
      moreover have "take t1 (drop start0 mem) = drop start0 mem"
        using len_mem t1 by simp
      ultimately show ?thesis
        using nz sc unfolding msc_single_to_user_def Let_def szmod s0mod if_True w st by simp
    qed
  next
    case False
    then have ge: "sz \<le> start0" by simp
    have s0lt2: "start0 < 2 * sz"
      using isz ol by (simp add: start0_def)
    have md: "start0 mod sz = start0 - sz"
      using ge s0lt2 by (simp add: mod_if)
    have w: "single_wrapped mem sz start0 len u = (Inr (start0 - sz, len), u)"
      using False by (simp add: single_wrapped_def mask md)
    show ?thesis
    proof (cases "len = 0")
      case True
      then show ?thesis
        unfolding msc_single_to_user_def Let_def szmod s0mod if_True w by simp
    next
      case nz: False
      have "start0 - sz \<le> in_sz" using ol by (simp add: start0_def)
      then have sb: "sub_ul in_sz (start0 - sz) = in_sz - (start0 - sz)"
        using inlt by (rule sub_ul_eq)
      have "len \<le> in_sz - (start0 - sz)"
        using ol ge by (simp add: start0_def)
      then have mn: "min len (sub_ul in_sz (start0 - sz)) = len"
        unfolding sb by simp
      have "start0 - sz + min len (sub_ul in_sz (start0 - sz)) \<le> length mem"
        and "length (ubytes u) + min len (sub_ul in_sz (start0 - sz)) \<le> ucap u"
        using ol ge isz len_mem assms(6) by (simp_all only: mn) (simp_all add: start0_def)
      from single_second_copy [OF this nz, of len]
      have sc: "(let tocopy = min len (sub_ul in_sz (start0 - sz))
                 in case copy_to_user u (mem_read mem (start0 - sz) tocopy) of
                      (r, u2) \<Rightarrow> if r \<noteq> 0 then (Inl EFAULT, u2)
                                 else (Inr (len - (len - tocopy)), u2)) =
                (Inr len, u\<lparr>ubytes := ubytes u @ take len (drop (start0 - sz) mem)\<rparr>)"
        by (simp add: mn)
      have "off - (sz - in_sz) = start0 - sz"
        using isz by (simp add: start0_def)
      moreover have "sz - in_sz \<le> off"
        using ge by (simp add: start0_def)
      moreover have "start0 - sz + len \<le> in_sz"
        using ol ge by (simp add: start0_def)
      ultimately have "take len (drop off (drop in_sz mem @ take in_sz mem)) =
            take len (drop (start0 - sz) mem)"
        using len_mem isz by (simp add: take_drop min_def add.commute)
      then show ?thesis
        using nz sc unfolding msc_single_to_user_def Let_def szmod s0mod if_True w by simp
    qed
  qed
qed

section \<open>One lap of the iterator\<close>

lemma lap_prepend_simps [simp]:
  "lap_prepend xs None = None"
  "lap_prepend xs (Some (vs, it)) = Some (xs @ vs, it)"
  "lap_prepend [] r = r"
  "lap_prepend xs (lap_prepend ys r) = lap_prepend (xs @ ys) r"
  by (auto simp: lap_prepend_def split: option.splits)

lemma iter_lap_step:
  "iter_lap (Suc k) H m it =
     lap_prepend [(win it, nat (block_it it), wrap_count it)]
       (lap_cont k H m (msc_iter_block_advance H m it))"
  by (auto simp: lap_prepend_def lap_cont_def split: prod.splits option.splits)

text \<open>The fields a window advance and the entry into a window leave or set.\<close>

lemma win_advance_fields:
  "fst (msc_iter_win_advance H m it) = (Some (msc_next_window m (win it)) = start_win it)"
  "fst (msc_iter_win_advance H m it) \<Longrightarrow>
     eof (snd (msc_iter_win_advance H m it)) = eof it + 1 \<and>
     win (snd (msc_iter_win_advance H m it)) = msc_next_window m (win it)"
  "\<not> fst (msc_iter_win_advance H m it) \<Longrightarrow>
     snd (msc_iter_win_advance H m it) = iter_enter H m it (msc_next_window m (win it))"
  by (auto simp: msc_iter_win_advance_def Let_def iter_enter_def)

lemma win_advance_start_win:
  "start_win (snd (msc_iter_win_advance H m it)) = start_win it"
  by (auto simp: msc_iter_win_advance_def Let_def msc_iter_block_start_def)

lemma iter_enter_fields:
  "win (iter_enter H m it w) = w"
  "start_win (iter_enter H m it w) = start_win it"
  "eof (iter_enter H m it w) = eof it"
  "start_block (iter_enter H m it w) = int (msc_win_oldest_block H (win_list m ! w))"
  "block_it (iter_enter H m it w) = int (msc_win_oldest_block H (win_list m ! w))"
  "wrap_count (iter_enter H m it w) = (if oldest_wrapped H m w then 2 else 0)"
  by (auto simp: iter_enter_def msc_iter_block_start_def Let_def msc_iter_bdesc_def oldest_wrapped_def)

text \<open>Facts about the two ring orders.\<close>

lemma ring_from_nth: "j < n \<Longrightarrow> ring_from s n ! j = Suc (s + j) mod n"
  by (simp add: ring_from_def)

lemma ring_at_nth: "j < n \<Longrightarrow> ring_at s n ! j = (s + j) mod n"
  by (simp add: ring_at_def)

lemma ring_lengths [simp]: "length (ring_from s n) = n" "length (ring_at s n) = n"
  by (simp_all add: ring_from_def ring_at_def)

lemma ring_at_perm:
  assumes "0 < n"
  shows "distinct (ring_at s n) \<and> set (ring_at s n) = {0..<n}"
proof (cases s)
  case 0
  have "map (\<lambda>j. j mod n) [0..<n] = map (\<lambda>j. j) [0..<n]"
    by (rule map_cong) simp_all
  then show ?thesis
    using 0 by (simp add: ring_at_def)
next
  case (Suc b)
  then have "ring_at s n = ring_from b n"
    by (simp add: ring_at_def ring_from_def)
  then show ?thesis
    using rotation_perm [OF assms, of b] by (simp add: ring_from_def)
qed

lemma ring_from_last: "s < n \<Longrightarrow> ring_from s n ! (n - 1) = s"
  by (simp add: ring_from_nth)

lemma ring_from_not_start:
  assumes "s < n" and "j < n - 1"
  shows "ring_from s n ! j \<noteq> s"
proof
  assume e: "ring_from s n ! j = s"
  have d: "distinct (ring_from s n)"
    using ring_from_perm [OF assms(1)] by simp
  have "ring_from s n ! j = ring_from s n ! (n - 1)"
    using e ring_from_last [OF assms(1)] by simp
  with d assms(2) have "j = n - 1"
    by (simp add: nth_eq_iff_index_eq)
  with assms(2) show False by simp
qed

lemma ring_from_next: "Suc j < n \<Longrightarrow> Suc (ring_from s n ! j) mod n = ring_from s n ! Suc j"
  by (simp add: ring_from_nth mod_Suc_eq)

lemma ring_at_next: "Suc j < n \<Longrightarrow> Suc (ring_at s n ! j) mod n = ring_at s n ! Suc j"
  by (simp add: ring_at_nth mod_Suc_eq)

lemma ring_at_0: "s < n \<Longrightarrow> ring_at s n ! 0 = s"
  by (simp add: ring_at_nth)

lemma ring_at_wraps: "s < n \<Longrightarrow> Suc (ring_at s n ! (n - 1)) mod n = s"
proof -
  assume s: "s < n"
  then have "Suc (ring_at s n ! (n - 1)) mod n = Suc (s + (n - 1)) mod n"
    by (simp add: ring_at_nth mod_Suc_eq)
  also have "Suc (s + (n - 1)) = s + n" using s by simp
  finally show ?thesis using s by simp
qed

lemma ring_at_not_start:
  assumes "s < n" and "Suc j < n"
  shows "ring_at s n ! Suc j \<noteq> s"
proof
  assume e: "ring_at s n ! Suc j = s"
  have d: "distinct (ring_at s n)"
    using ring_at_perm [of n s] assms(1) by simp
  have "ring_at s n ! Suc j = ring_at s n ! 0"
    using e ring_at_0 [OF assms(1)] by simp
  with d assms(2) have "Suc j = 0"
    by (simp add: nth_eq_iff_index_eq)
  then show False by simp
qed

lemma last_written_scan_bound:
  "0 < nr_blocks wn \<Longrightarrow> last_written_scan H wn b < nr_blocks wn"
proof (induction H wn b rule: last_written_scan.induct)
  case (1 H wn blk)
  then show ?case
    by (subst last_written_scan.simps) auto
qed

lemma oldest_block_bound: "0 < nr_blocks wn \<Longrightarrow> msc_win_oldest_block H wn < nr_blocks wn"
  by (simp add: msc_win_oldest_block_def last_written_scan_bound)

text \<open>What \<open>msc_iter_block_advance\<close> does in each of its situations.\<close>

lemma next_index: "b < n \<Longrightarrow> (if int b + 1 = int n then 0 else int b + 1) = int (Suc b mod n)"
  by (auto simp: mod_Suc)

lemma step_wrap_first:
  assumes "block_it it = int s" and "start_block it = int s" and "wrap_count it = 2"
    and "s < nr_blocks (win_list m ! win it)"
  shows "msc_iter_block_advance H m it =
         (False, it\<lparr>block_off := 0, wrap_count := 1,
                    block_it := int (Suc s mod nr_blocks (win_list m ! win it))\<rparr>)"
  using assms next_index [OF assms(4)]
  by (simp add: msc_iter_block_advance_def block_advance_tail_def Let_def)

lemma step_wrap_mid:
  assumes "block_it it = int b" and "start_block it = int s" and "wrap_count it = 1"
    and "b < nr_blocks (win_list m ! win it)" and "b \<noteq> s"
  shows "msc_iter_block_advance H m it =
         (False, it\<lparr>block_off := 0, block_it := int (Suc b mod nr_blocks (win_list m ! win it))\<rparr>)"
  using assms next_index [OF assms(4)]
  by (simp add: msc_iter_block_advance_def block_advance_tail_def Let_def)

lemma step_wrap_end:
  assumes "block_it it = start_block it" and "wrap_count it = 1"
  shows "msc_iter_block_advance H m it =
         msc_iter_win_advance H m (it\<lparr>block_off := 0, wrap_count := 0\<rparr>)"
  using assms by (simp add: msc_iter_block_advance_def Let_def)

lemma step_plain_last_written:
  assumes "wrap_count it = 0" and "msc_block_last_written H (msc_iter_bdesc m it)"
  shows "msc_iter_block_advance H m it = msc_iter_win_advance H m (it\<lparr>block_off := 0\<rparr>)"
  using assms
  by (simp add: msc_iter_block_advance_def block_advance_tail_def Let_def msc_iter_bdesc_def)

lemma step_plain_around:
  assumes "wrap_count it = 0" and "\<not> msc_block_last_written H (msc_iter_bdesc m it)"
    and "block_it it = int b" and "start_block it = int s"
    and "b < nr_blocks (win_list m ! win it)" and "Suc b mod nr_blocks (win_list m ! win it) = s"
  shows "msc_iter_block_advance H m it =
         msc_iter_win_advance H m (it\<lparr>block_off := 0, block_it := int s\<rparr>)"
  using assms next_index [OF assms(5)]
  by (simp add: msc_iter_block_advance_def block_advance_tail_def Let_def msc_iter_bdesc_def)

lemma step_plain_next:
  assumes "wrap_count it = 0" and "\<not> msc_block_last_written H (msc_iter_bdesc m it)"
    and "block_it it = int b" and "start_block it = int s"
    and "b < nr_blocks (win_list m ! win it)" and "Suc b mod nr_blocks (win_list m ! win it) \<noteq> s"
  shows "msc_iter_block_advance H m it =
         (False, it\<lparr>block_off := 0, block_it := int (Suc b mod nr_blocks (win_list m ! win it))\<rparr>)"
  using assms next_index [OF assms(5)]
  by (simp add: msc_iter_block_advance_def block_advance_tail_def Let_def msc_iter_bdesc_def)

text \<open>The part of a wrapped window that is read with the counter at 1.\<close>

lemma same_lap_refl [simp]: "same_lap it it"
  "same_lap it (it\<lparr>block_off := x\<rparr>)" "same_lap it (it\<lparr>block_off := x, wrap_count := y\<rparr>)"
  "same_lap it (it\<lparr>block_off := x, block_it := z\<rparr>)"
  "same_lap it (it\<lparr>block_off := x, wrap_count := y, block_it := z\<rparr>)"
  by (simp_all add: same_lap_def)

lemma same_lap_trans: "same_lap a b \<Longrightarrow> same_lap b c \<Longrightarrow> same_lap a c"
  by (simp add: same_lap_def)

lemma lap_wrap_phase:
  assumes "s < nb" and "nb = nr_blocks (win_list m ! win it)"
    and "start_block it = int s" and "wrap_count it = 1"
    and "block_it it = int (ring_from s nb ! j)" and "j < nb"
  shows "\<exists>e. same_lap it e \<and>
           (\<forall>k. iter_lap (k + (nb - j)) H m it =
                lap_prepend (map (\<lambda>b. (win it, b, 1)) (drop j (ring_from s nb)))
                  (lap_cont k H m (msc_iter_win_advance H m e)))"
  using assms
proof (induction "nb - 1 - j" arbitrary: j it)
  case 0
  then have j: "Suc j = nb" by simp
  then have jn: "j = nb - 1" by simp
  have b: "block_it it = start_block it"
    using 0 ring_from_last [of s nb] jn by simp
  let ?e = "it\<lparr>block_off := 0, wrap_count := 0\<rparr>"
  have adv: "msc_iter_block_advance H m it = msc_iter_win_advance H m ?e"
    using b "0.prems"(4) by (rule step_wrap_end)
  have d: "drop j (ring_from s nb) = [ring_from s nb ! j]"
    using Cons_nth_drop_Suc [of j "ring_from s nb"] j by simp
  have bl: "nat (block_it it) = ring_from s nb ! j"
    using "0.prems"(5) by simp
  have "iter_lap (k + (nb - j)) H m it =
        lap_prepend (map (\<lambda>b. (win it, b, 1)) (drop j (ring_from s nb)))
          (lap_cont k H m (msc_iter_win_advance H m ?e))" for k
  proof -
    have "k + (nb - j) = Suc k" using j by simp
    then show ?thesis
      unfolding d by (simp only: iter_lap_step adv bl "0.prems"(4)) simp
  qed
  moreover have "same_lap it ?e" by simp
  ultimately show ?case by blast
next
  case (Suc x)
  then have j: "Suc j < nb" by simp
  let ?b = "ring_from s nb ! j"
  have bn: "?b < nr_blocks (win_list m ! win it)"
    using Suc.prems(1,2,6) by (simp add: ring_from_nth)
  have bs: "?b \<noteq> s"
    using ring_from_not_start [OF Suc.prems(1), of j] j by simp
  let ?it = "it\<lparr>block_off := 0, block_it := int (ring_from s nb ! Suc j)\<rparr>"
  have nx: "Suc ?b mod nr_blocks (win_list m ! win it) = ring_from s nb ! Suc j"
    using ring_from_next [OF j, of s] Suc.prems(2) by simp
  have adv: "msc_iter_block_advance H m it = (False, ?it)"
    using step_wrap_mid [OF Suc.prems(5) Suc.prems(3) Suc.prems(4) bn bs, of H] nx by simp
  have x: "x = nb - 1 - Suc j" using Suc.hyps(2) by simp
  have "\<exists>e. same_lap ?it e \<and>
           (\<forall>k. iter_lap (k + (nb - Suc j)) H m ?it =
                lap_prepend (map (\<lambda>b. (win ?it, b, 1)) (drop (Suc j) (ring_from s nb)))
                  (lap_cont k H m (msc_iter_win_advance H m e)))"
    using Suc.prems j by (intro Suc.hyps(1) [OF x]) simp_all
  then obtain e where e: "same_lap ?it e"
    and run: "\<And>k. iter_lap (k + (nb - Suc j)) H m ?it =
                lap_prepend (map (\<lambda>b. (win it, b, 1)) (drop (Suc j) (ring_from s nb)))
                  (lap_cont k H m (msc_iter_win_advance H m e))"
    by auto
  have "same_lap it ?it" by simp
  then have se: "same_lap it e"
    using e by (rule same_lap_trans)
  have d: "drop j (ring_from s nb) = ?b # drop (Suc j) (ring_from s nb)"
    using Cons_nth_drop_Suc [of j "ring_from s nb"] Suc.prems(6) by simp
  have bl: "nat (block_it it) = ?b"
    using Suc.prems(5) by simp
  have "iter_lap (k + (nb - j)) H m it =
        lap_prepend (map (\<lambda>b. (win it, b, 1)) (drop j (ring_from s nb)))
          (lap_cont k H m (msc_iter_win_advance H m e))" for k
  proof -
    have "k + (nb - j) = Suc (k + (nb - Suc j))" using j by simp
    then have "iter_lap (k + (nb - j)) H m it =
               lap_prepend [(win it, ?b, 1)] (iter_lap (k + (nb - Suc j)) H m ?it)"
      by (simp only: iter_lap_step adv bl Suc.prems(4)) (simp add: lap_cont_def)
    then show ?thesis
      unfolding run d by simp
  qed
  with se show ?case by blast
qed

text \<open>The blocks of a window that is read with the counter at 0.\<close>

lemma take_until_simps [simp]:
  "take_until P [] = []"
  "P x \<Longrightarrow> take_until P (x # xs) = [x]"
  "\<not> P x \<Longrightarrow> take_until P (x # xs) = x # take_until P xs"
  by (simp_all add: take_until_def)

lemma lap_stop:
  assumes "msc_iter_block_advance H m it = msc_iter_win_advance H m e"
    and "block_it it = int b" and "wrap_count it = c"
  shows "iter_lap (Suc k) H m it =
         lap_prepend [(win it, b, c)] (lap_cont k H m (msc_iter_win_advance H m e))"
  using assms(2,3) by (simp only: iter_lap_step assms(1)) simp

lemma lap_go:
  assumes "msc_iter_block_advance H m it = (False, it')"
    and "block_it it = int b" and "wrap_count it = c"
  shows "iter_lap (Suc k) H m it = lap_prepend [(win it, b, c)] (iter_lap k H m it')"
  using assms(2,3) by (simp only: iter_lap_step assms(1)) (simp add: lap_cont_def)

lemma lap_plain_phase:
  assumes "s < nb" and "nb = nr_blocks (win_list m ! win it)"
    and "start_block it = int s" and "wrap_count it = 0"
    and "block_it it = int (ring_at s nb ! j)" and "j < nb"
    and "P = (\<lambda>b. msc_block_last_written H (bdesc (block (win_list m ! win it) ! b)))"
  shows "\<exists>e. same_lap it e \<and>
           (\<forall>k. iter_lap (k + length (take_until P (drop j (ring_at s nb)))) H m it =
                lap_prepend (map (\<lambda>b. (win it, b, 0)) (take_until P (drop j (ring_at s nb))))
                  (lap_cont k H m (msc_iter_win_advance H m e)))"
  using assms
proof (induction "nb - j" arbitrary: j it rule: less_induct)
  case less
  let ?b = "ring_at s nb ! j"
  have d: "drop j (ring_at s nb) = ?b # drop (Suc j) (ring_at s nb)"
    using Cons_nth_drop_Suc [of j "ring_at s nb"] less.prems(6) by simp
  have bn: "?b < nr_blocks (win_list m ! win it)"
    using less.prems(1,2,6) by (simp add: ring_at_nth)
  have bd: "msc_block_last_written H (msc_iter_bdesc m it) = P ?b"
    using less.prems(5,7) by (simp add: msc_iter_bdesc_def)
  show ?case
  proof (cases "P ?b")
    case True
    let ?e = "it\<lparr>block_off := 0\<rparr>"
    have adv: "msc_iter_block_advance H m it = msc_iter_win_advance H m ?e"
      using less.prems(4) bd True by (intro step_plain_last_written) simp_all
    have v: "take_until P (drop j (ring_at s nb)) = [?b]"
      unfolding d using True by simp
    have "iter_lap (k + length (take_until P (drop j (ring_at s nb)))) H m it =
          lap_prepend (map (\<lambda>b. (win it, b, 0)) (take_until P (drop j (ring_at s nb))))
            (lap_cont k H m (msc_iter_win_advance H m ?e))" for k
      unfolding v using lap_stop [OF adv less.prems(5) less.prems(4), of k] by simp
    moreover have "same_lap it ?e" by simp
    ultimately show ?thesis by blast
  next
    case False
    show ?thesis
    proof (cases "Suc j = nb")
      case True
      let ?e = "it\<lparr>block_off := 0, block_it := int s\<rparr>"
      have "j = nb - 1" using True by simp
      then have nx: "Suc ?b mod nr_blocks (win_list m ! win it) = s"
        using ring_at_wraps [OF less.prems(1)] less.prems(2) by simp
      have adv: "msc_iter_block_advance H m it = msc_iter_win_advance H m ?e"
        using less.prems(4) bd False less.prems(5) less.prems(3) bn nx
        by (intro step_plain_around) simp_all
      have v: "take_until P (drop j (ring_at s nb)) = [?b]"
        unfolding d using False True by simp
      have "iter_lap (k + length (take_until P (drop j (ring_at s nb)))) H m it =
            lap_prepend (map (\<lambda>b. (win it, b, 0)) (take_until P (drop j (ring_at s nb))))
              (lap_cont k H m (msc_iter_win_advance H m ?e))" for k
        unfolding v using lap_stop [OF adv less.prems(5) less.prems(4), of k] by simp
      moreover have "same_lap it ?e" by simp
      ultimately show ?thesis by blast
    next
      case nl: False
      then have j: "Suc j < nb" using less.prems(6) by simp
      let ?it = "it\<lparr>block_off := 0, block_it := int (ring_at s nb ! Suc j)\<rparr>"
      have nx: "Suc ?b mod nr_blocks (win_list m ! win it) = ring_at s nb ! Suc j"
        using ring_at_next [OF j, of s] less.prems(2) by simp
      have ns: "Suc ?b mod nr_blocks (win_list m ! win it) \<noteq> s"
        unfolding nx using ring_at_not_start [OF less.prems(1) j] .
      have "msc_iter_block_advance H m it =
            (False, it\<lparr>block_off := 0,
                       block_it := int (Suc ?b mod nr_blocks (win_list m ! win it))\<rparr>)"
        using less.prems(4) bd False less.prems(5) less.prems(3) bn ns
        by (intro step_plain_next) simp_all
      then have adv: "msc_iter_block_advance H m it = (False, ?it)"
        unfolding nx .
      have "\<exists>e. same_lap ?it e \<and>
           (\<forall>k. iter_lap (k + length (take_until P (drop (Suc j) (ring_at s nb)))) H m ?it =
                lap_prepend (map (\<lambda>b. (win ?it, b, 0)) (take_until P (drop (Suc j) (ring_at s nb))))
                  (lap_cont k H m (msc_iter_win_advance H m e)))"
        using less.prems j by (intro less.hyps) simp_all
      then obtain e where e: "same_lap ?it e"
        and run: "\<And>k. iter_lap (k + length (take_until P (drop (Suc j) (ring_at s nb)))) H m ?it =
                lap_prepend (map (\<lambda>b. (win it, b, 0)) (take_until P (drop (Suc j) (ring_at s nb))))
                  (lap_cont k H m (msc_iter_win_advance H m e))"
        by auto
      have "same_lap it ?it" by simp
      then have se: "same_lap it e"
        using e by (rule same_lap_trans)
      have v: "take_until P (drop j (ring_at s nb)) = ?b # take_until P (drop (Suc j) (ring_at s nb))"
        unfolding d using False by simp
      have "iter_lap (k + length (take_until P (drop j (ring_at s nb)))) H m it =
            lap_prepend (map (\<lambda>b. (win it, b, 0)) (take_until P (drop j (ring_at s nb))))
              (lap_cont k H m (msc_iter_win_advance H m e))" for k
      proof -
        have "iter_lap (Suc (k + length (take_until P (drop (Suc j) (ring_at s nb))))) H m it =
              lap_prepend [(win it, ?b, 0)]
                (iter_lap (k + length (take_until P (drop (Suc j) (ring_at s nb)))) H m ?it)"
          using adv less.prems(5) less.prems(4) by (rule lap_go)
        then show ?thesis
          unfolding run v by simp
      qed
      with se show ?thesis by blast
    qed
  qed
qed

text \<open>One window of the lap, from the entry into it to the window advance that leaves it.\<close>

lemma lap_window:
  assumes "win_ok (win_list m ! w)"
  shows "\<exists>e. same_lap (iter_enter H m it w) e \<and>
           (\<forall>k. iter_lap (k + length (win_visits H m w)) H m (iter_enter H m it w) =
                lap_prepend (win_visits H m w) (lap_cont k H m (msc_iter_win_advance H m e)))"
proof -
  let ?I = "iter_enter H m it w"
  let ?wn = "win_list m ! w"
  let ?s = "msc_win_oldest_block H ?wn"
  let ?nb = "nr_blocks ?wn"
  have nb: "0 < ?nb" using assms unfolding win_ok_def by blast
  have s: "?s < ?nb" using nb by (rule oldest_block_bound)
  have w: "win ?I = w" and sb: "start_block ?I = int ?s" and bl: "block_it ?I = int ?s"
    by (simp_all add: iter_enter_fields)
  have nbI: "?nb = nr_blocks (win_list m ! win ?I)" using w by simp
  show ?thesis
  proof (cases "oldest_wrapped H m w")
    case True
    then have wc: "wrap_count ?I = 2" by (simp add: iter_enter_fields)
    let ?I' = "?I\<lparr>block_off := 0, wrap_count := 1, block_it := int (ring_from ?s ?nb ! 0)\<rparr>"
    have r0: "Suc ?s mod ?nb = ring_from ?s ?nb ! 0"
      using nb by (simp add: ring_from_nth)
    have "msc_iter_block_advance H m ?I =
          (False, ?I\<lparr>block_off := 0, wrap_count := 1,
                      block_it := int (Suc ?s mod nr_blocks (win_list m ! win ?I))\<rparr>)"
      using bl sb wc s w by (intro step_wrap_first) simp_all
    then have adv: "msc_iter_block_advance H m ?I = (False, ?I')"
      using r0 w by simp
    have "\<exists>e. same_lap ?I' e \<and>
           (\<forall>k. iter_lap (k + (?nb - 0)) H m ?I' =
                lap_prepend (map (\<lambda>b. (win ?I', b, 1)) (drop 0 (ring_from ?s ?nb)))
                  (lap_cont k H m (msc_iter_win_advance H m e)))"
      using s nb w sb by (intro lap_wrap_phase) simp_all
    then obtain e where e: "same_lap ?I' e"
      and run: "\<And>k. iter_lap (k + ?nb) H m ?I' =
                lap_prepend (map (\<lambda>b. (w, b, 1)) (ring_from ?s ?nb))
                  (lap_cont k H m (msc_iter_win_advance H m e))"
      using w by auto
    have "same_lap ?I ?I'" by simp
    then have se: "same_lap ?I e" using e by (rule same_lap_trans)
    have v: "win_visits H m w = (w, ?s, 2) # map (\<lambda>b. (w, b, 1)) (ring_from ?s ?nb)"
      using True by (simp add: win_visits_def Let_def)
    have "iter_lap (k + length (win_visits H m w)) H m ?I =
          lap_prepend (win_visits H m w) (lap_cont k H m (msc_iter_win_advance H m e))" for k
    proof -
      have "iter_lap (Suc (k + ?nb)) H m ?I =
            lap_prepend [(win ?I, ?s, 2)] (iter_lap (k + ?nb) H m ?I')"
        using adv bl wc by (rule lap_go)
      then show ?thesis
        unfolding run v w by simp
    qed
    with se show ?thesis by blast
  next
    case False
    then have wc: "wrap_count ?I = 0" by (simp add: iter_enter_fields)
    let ?P = "\<lambda>b. msc_block_last_written H (bdesc (block ?wn ! b))"
    have r0: "ring_at ?s ?nb ! 0 = ?s" using s by (rule ring_at_0)
    have "\<exists>e. same_lap ?I e \<and>
           (\<forall>k. iter_lap (k + length (take_until ?P (drop 0 (ring_at ?s ?nb)))) H m ?I =
                lap_prepend (map (\<lambda>b. (win ?I, b, 0)) (take_until ?P (drop 0 (ring_at ?s ?nb))))
                  (lap_cont k H m (msc_iter_win_advance H m e)))"
      using s nb w sb bl wc r0 by (intro lap_plain_phase) simp_all
    moreover have "win_visits H m w = map (\<lambda>b. (w, b, 0)) (take_until ?P (ring_at ?s ?nb))"
      using False by (simp add: win_visits_def Let_def)
    ultimately show ?thesis
      using w by simp
  qed
qed

text \<open>The windows of the lap, from a window of the ring to the end of the lap.\<close>

lemma next_window_mod:
  "w < length (win_list m) \<Longrightarrow> msc_next_window m w = Suc w mod length (win_list m)"
  by (auto simp: msc_next_window_def msc_is_last_win_def mod_Suc)

lemma lap_ring:
  assumes "list_all win_ok (win_list m)" and "n = length (win_list m)" and "st < n"
    and "j < n" and "start_win it = Some st"
  shows "\<exists>r. eof r = eof it + 1 \<and> start_win r = Some st \<and> win r = st \<and>
           (\<forall>k. iter_lap (k + length (concat (map (win_visits H m) (drop j (ring_at st n)))))
                  H m (iter_enter H m it (ring_at st n ! j)) =
                Some (concat (map (win_visits H m) (drop j (ring_at st n))), r))"
  using assms
proof (induction "n - j" arbitrary: j it rule: less_induct)
  case less
  let ?w = "ring_at st n ! j"
  let ?I = "iter_enter H m it ?w"
  have "0 < n" using less.prems(3) by simp
  then have "?w < n"
    unfolding ring_at_nth [OF less.prems(4)] by (rule mod_less_divisor)
  then have wn: "?w < length (win_list m)"
    unfolding less.prems(2) .
  then have ok: "win_ok (win_list m ! ?w)"
    using less.prems(1) by (simp add: list_all_length)
  from lap_window [OF ok, of H it] obtain e where e: "same_lap ?I e"
    and run: "\<And>k. iter_lap (k + length (win_visits H m ?w)) H m ?I =
                lap_prepend (win_visits H m ?w) (lap_cont k H m (msc_iter_win_advance H m e))"
    by blast
  have ew: "win e = ?w" and es: "start_win e = Some st" and ee: "eof e = eof it"
    using e less.prems(5) by (simp_all add: same_lap_def iter_enter_fields)
  have d: "drop j (ring_at st n) = ?w # drop (Suc j) (ring_at st n)"
    using Cons_nth_drop_Suc [of j "ring_at st n"] less.prems(4) by simp
  have nw: "msc_next_window m (win e) = Suc ?w mod n"
    using next_window_mod [OF wn] ew less.prems(2) by simp
  show ?case
  proof (cases "Suc j = n")
    case True
    then have "j = n - 1" by simp
    then have "Suc ?w mod n = st"
      using ring_at_wraps [OF less.prems(3)] by simp
    then have stop: "fst (msc_iter_win_advance H m e)"
      using nw es by (simp add: win_advance_fields(1))
    let ?r = "snd (msc_iter_win_advance H m e)"
    have r: "eof ?r = eof it + 1" "win ?r = st" "start_win ?r = Some st"
      using win_advance_fields(2) [OF stop] nw \<open>Suc ?w mod n = st\<close> ee es
      by (simp_all add: win_advance_start_win)
    have dn: "drop (Suc j) (ring_at st n) = []" using True by simp
    have "iter_lap (k + length (concat (map (win_visits H m) (drop j (ring_at st n))))) H m ?I =
          Some (concat (map (win_visits H m) (drop j (ring_at st n))), ?r)" for k
      unfolding d dn using run [of k] stop by (simp add: lap_cont_def)
    with r show ?thesis by blast
  next
    case False
    then have j: "Suc j < n" using less.prems(4) by simp
    have nx: "Suc ?w mod n = ring_at st n ! Suc j"
      using ring_at_next [OF j] .
    have "ring_at st n ! Suc j \<noteq> st"
      using less.prems(3) j by (rule ring_at_not_start)
    then have go: "\<not> fst (msc_iter_win_advance H m e)"
      using nw nx es by (simp add: win_advance_fields(1))
    have sn: "snd (msc_iter_win_advance H m e) = iter_enter H m e (ring_at st n ! Suc j)"
      using win_advance_fields(3) [OF go] nw nx by simp
    have "\<exists>r. eof r = eof e + 1 \<and> start_win r = Some st \<and> win r = st \<and>
           (\<forall>k. iter_lap (k + length (concat (map (win_visits H m) (drop (Suc j) (ring_at st n)))))
                  H m (iter_enter H m e (ring_at st n ! Suc j)) =
                Some (concat (map (win_visits H m) (drop (Suc j) (ring_at st n))), r))"
      using less.prems(1,2,3) j es by (intro less.hyps) simp_all
    then obtain r where r: "eof r = eof it + 1" "start_win r = Some st" "win r = st"
      and rest: "\<And>k. iter_lap (k + length (concat (map (win_visits H m) (drop (Suc j) (ring_at st n)))))
                  H m (iter_enter H m e (ring_at st n ! Suc j)) =
                Some (concat (map (win_visits H m) (drop (Suc j) (ring_at st n))), r)"
      using ee by auto
    have "iter_lap (k + length (concat (map (win_visits H m) (drop j (ring_at st n))))) H m ?I =
          Some (concat (map (win_visits H m) (drop j (ring_at st n))), r)" for k
    proof -
      let ?l = "length (concat (map (win_visits H m) (drop (Suc j) (ring_at st n))))"
      have l: "k + length (concat (map (win_visits H m) (drop j (ring_at st n)))) =
               (k + ?l) + length (win_visits H m ?w)"
        unfolding d by simp
      have "iter_lap ((k + ?l) + length (win_visits H m ?w)) H m ?I =
            Some (win_visits H m ?w @ concat (map (win_visits H m) (drop (Suc j) (ring_at st n))), r)"
        using run [of "k + ?l"] go sn rest [of k] by (simp add: lap_cont_def)
      then show ?thesis
        unfolding l unfolding d by simp
    qed
    with r show ?thesis by blast
  qed
qed

text \<open>Where the lap starts.\<close>

lemma oldest_window_range:
  assumes "win_list m \<noteq> []"
  shows "\<exists>r. msc_oldest_window H m = Some r \<and> r < length (win_list m)"
proof (cases "oldest_scan H (next_write_addr m) (win_list m) 0 0")
  case None
  then show ?thesis
    using assms by (simp add: msc_oldest_window_def)
next
  case (Some r)
  from oldest_scan_Some [OF this] have "r < length (win_list m)" by auto
  then show ?thesis
    using assms Some by (simp add: msc_oldest_window_def)
qed

lemma win_start_enter:
  "msc_oldest_window H m = Some st \<Longrightarrow>
   msc_iter_win_start H m msc_iter_init =
     (None, iter_enter H m (msc_iter_init\<lparr>start_win := Some st\<rparr>) st)"
  by (simp add: msc_iter_win_start_def msc_iter_init_def iter_enter_def)

text \<open>The visits of a lap, window by window and block by block.\<close>

lemma take_until_take:
  "take_until P xs = take (Suc (length (takeWhile (\<lambda>x. \<not> P x) xs))) xs"
  by (induction xs) (simp_all add: take_until_def)

lemma take_until_nonempty: "xs \<noteq> [] \<Longrightarrow> take_until P xs \<noteq> []"
  by (cases xs) (simp_all add: take_until_take)

lemma win_visits_fst: "v \<in> set (win_visits H m w) \<Longrightarrow> fst v = w"
  by (auto simp: win_visits_def Let_def split: if_splits)

lemma win_visits_nonempty:
  assumes "win_ok (win_list m ! w)"
  shows "win_visits H m w \<noteq> []"
proof -
  have "0 < nr_blocks (win_list m ! w)" using assms unfolding win_ok_def by blast
  then have "ring_at (msc_win_oldest_block H (win_list m ! w)) (nr_blocks (win_list m ! w)) \<noteq> []"
    by (simp add: ring_at_def)
  then show ?thesis
    by (simp add: win_visits_def Let_def take_until_nonempty)
qed

lemma remdups_adj_same:
  "\<forall>x \<in> set xs. x = a \<Longrightarrow> remdups_adj (a # xs @ ys) = remdups_adj (a # ys)"
  by (induction xs) simp_all

lemma remdups_adj_run:
  assumes "xs \<noteq> []" and "\<forall>x \<in> set xs. x = a"
  shows "remdups_adj (xs @ ys) = remdups_adj (a # ys)"
proof (cases xs)
  case Nil
  with assms(1) show ?thesis by simp
next
  case (Cons x xs')
  then have "x = a" "\<forall>x \<in> set xs'. x = a" using assms(2) by simp_all
  then show ?thesis
    unfolding Cons using remdups_adj_same [of xs' a ys] by simp
qed

lemma remdups_adj_hd: "remdups_adj xs = y # ys \<Longrightarrow> \<exists>xs'. xs = y # xs'"
  by (cases xs) (auto simp: remdups_adj_Cons split: list.splits if_splits)

lemma lap_windows:
  assumes "distinct ws" and "\<forall>w \<in> set ws. win_ok (win_list m ! w)"
  shows "remdups_adj (map fst (concat (map (win_visits H m) ws))) = ws"
  using assms
proof (induction ws)
  case Nil
  then show ?case by simp
next
  case (Cons w ws)
  let ?rest = "map fst (concat (map (win_visits H m) ws))"
  have ih: "remdups_adj ?rest = ws" using Cons by simp
  have ne: "map fst (win_visits H m w) \<noteq> []"
    using win_visits_nonempty [of m w H] Cons.prems(2) by simp
  have al: "\<forall>x \<in> set (map fst (win_visits H m w)). x = w"
    using win_visits_fst [of _ H m w] by auto
  have "remdups_adj (map fst (concat (map (win_visits H m) (w # ws)))) =
        remdups_adj (map fst (win_visits H m w) @ ?rest)"
    by simp
  also have "\<dots> = remdups_adj (w # ?rest)"
    using ne al by (rule remdups_adj_run)
  also have "\<dots> = w # ws"
  proof (cases ws)
    case Nil
    with ih have "?rest = []" by simp
    then show ?thesis using Nil by simp
  next
    case (Cons y ys)
    with ih obtain xs' where x: "?rest = y # xs'"
      using remdups_adj_hd [of ?rest y ys] by auto
    have "w \<noteq> y" using Cons.prems(1) Cons by auto
    then have "remdups_adj (w # ?rest) = w # remdups_adj ?rest"
      unfolding x by simp
    then show ?thesis using ih by simp
  qed
  finally show ?case .
qed

lemma visits_other: "w' \<noteq> w \<Longrightarrow> visits_to w b (win_visits H m w') = []"
  using win_visits_fst [of _ H m w'] by (auto simp: visits_to_def filter_empty_conv)

lemma visits_append [simp]: "visits_to w b (xs @ ys) = visits_to w b xs @ visits_to w b ys"
  by (simp add: visits_to_def)

lemma visits_concat:
  "distinct ws \<Longrightarrow> w \<in> set ws \<Longrightarrow>
   visits_to w b (concat (map (win_visits H m) ws)) = visits_to w b (win_visits H m w)"
proof (induction ws)
  case Nil
  then show ?case by simp
next
  case (Cons x ws)
  show ?case
  proof (cases "x = w")
    case True
    then have "w \<notin> set ws" using Cons.prems(1) by simp
    then have "visits_to w b (concat (map (win_visits H m) ws)) = []"
    proof (induction ws)
      case Nil
      then show ?case by (simp add: visits_to_def)
    next
      case (Cons y ys)
      then show ?case using visits_other [of y w b H m] by simp
    qed
    then show ?thesis using True by simp
  next
    case False
    then show ?thesis
      using Cons visits_other [of x w b H m] by simp
  qed
qed

lemma filter_eq_distinct:
  "distinct xs \<Longrightarrow> filter (\<lambda>x. x = a) xs = (if a \<in> set xs then [a] else [])"
  by (induction xs) auto

lemma visits_start_block:
  assumes "win_ok (win_list m ! w)" and "oldest_wrapped H m w"
    and "b = msc_win_oldest_block H (win_list m ! w)"
  shows "visits_to w b (win_visits H m w) = [(w, b, 2), (w, b, 1)]"
proof -
  let ?nb = "nr_blocks (win_list m ! w)"
  have nb: "0 < ?nb" using assms(1) unfolding win_ok_def by blast
  have s: "b < ?nb" unfolding assms(3) using nb by (rule oldest_block_bound)
  have d: "distinct (ring_from b ?nb)" and m: "b \<in> set (ring_from b ?nb)"
    using ring_from_perm [OF s] s by simp_all
  have "filter (\<lambda>x. x = b) (ring_from b ?nb) = [b]"
    using filter_eq_distinct [OF d, of b] m by simp
  then show ?thesis
    using assms(2,3) by (simp add: win_visits_def Let_def visits_to_def filter_map comp_def)
qed

lemma visits_other_block:
  assumes "win_ok (win_list m ! w)"
    and "\<not> (oldest_wrapped H m w \<and> b = msc_win_oldest_block H (win_list m ! w))"
  shows "length (visits_to w b (win_visits H m w)) \<le> 1"
proof -
  let ?nb = "nr_blocks (win_list m ! w)"
  let ?s = "msc_win_oldest_block H (win_list m ! w)"
  have nb: "0 < ?nb" using assms(1) unfolding win_ok_def by blast
  have s: "?s < ?nb" using nb by (rule oldest_block_bound)
  show ?thesis
  proof (cases "oldest_wrapped H m w")
    case True
    then have bs: "b \<noteq> ?s" using assms(2) by simp
    have d: "distinct (ring_from ?s ?nb)"
      using ring_from_perm [OF s] by simp
    have "length (filter (\<lambda>x. x = b) (ring_from ?s ?nb)) \<le> 1"
      using filter_eq_distinct [OF d, of b] by simp
    then show ?thesis
      using True bs by (simp add: win_visits_def Let_def visits_to_def filter_map comp_def)
  next
    case False
    let ?P = "\<lambda>b. msc_block_last_written H (bdesc (block (win_list m ! w) ! b))"
    have "distinct (ring_at ?s ?nb)"
      using ring_at_perm [OF nb] by simp
    then have d: "distinct (take_until ?P (ring_at ?s ?nb))"
      unfolding take_until_take by (rule distinct_take)
    have "length (filter (\<lambda>x. x = b) (take_until ?P (ring_at ?s ?nb))) \<le> 1"
      using filter_eq_distinct [OF d, of b] by simp
    then show ?thesis
      using False by (simp add: win_visits_def Let_def visits_to_def filter_map comp_def)
  qed
qed

text \<open>The end-of-stream flag, and a call after the lap.\<close>

lemma win_advance_eof:
  "eof (snd (msc_iter_win_advance H m it)) =
     (if Some (msc_next_window m (win it)) = start_win it then eof it + 1 else eof it)"
  by (simp add: msc_iter_win_advance_def Let_def msc_iter_block_start_def)

lemma block_advance_eof:
  "eof (snd (msc_iter_block_advance H m it)) =
     (if fst (msc_iter_block_advance H m it) then eof it + 1 else eof it)"
  by (simp add: msc_iter_block_advance_def block_advance_tail_def Let_def
      msc_iter_win_advance_def msc_iter_block_start_def)

lemma iterate_after_eof:
  "eof it \<noteq> 0 \<Longrightarrow> msc_buffer_iterate fuel H m fn it sz d = Some (0, it, d)"
  by (simp add: msc_buffer_iterate_def)


text \<open>
  C1. Take a buffer with a non-empty window list whose windows each have at least one
  block, and a fresh iterator. \<open>msc_iter_win_start\<close> puts it on the oldest block of the
  oldest window \<open>st\<close>, and calling \<open>msc_iter_block_advance\<close> again and again stops, after
  exactly as many calls as \<open>lap_visits\<close> has entries, with the first call that returns
  true; the blocks the iterator stood on are \<open>lap_visits\<close>. In that list the windows come
  in ring order from \<open>st\<close>, each window of the list in one run of consecutive visits. A
  window's oldest block that is wrap-flagged is visited twice, first with the wrap counter
  at 2, which is when \<open>msc_buffer_iterate\<close> reads the tail segment, then with the counter
  at 1, as a normal block; every other block is visited at most once. An advance raises
  the end-of-stream flag when it returns true and otherwise leaves it, and the window
  advance returns true when the next window is the starting window and only then. At the
  end of the lap the flag is set, and \<open>msc_buffer_iterate\<close> then returns 0 and leaves the
  iterator as it is: there is no second lap.
\<close>

theorem iterator_one_lap:
  assumes "win_list m \<noteq> []" and "list_all win_ok (win_list m)"
  shows "\<exists>st it0 r.
           msc_oldest_window H m = Some st \<and> st < length (win_list m) \<and>
           msc_iter_win_start H m msc_iter_init = (None, it0) \<and>
           win it0 = st \<and> block_it it0 = int (msc_win_oldest_block H (win_list m ! st)) \<and>
           eof it0 = 0 \<and>
           (\<forall>k. iter_lap (k + length (lap_visits H m st)) H m it0 = Some (lap_visits H m st, r)) \<and>
           eof r = 1 \<and> win r = st \<and>
           (\<forall>fuel fn sz d. msc_buffer_iterate fuel H m fn r sz d = Some (0, r, d)) \<and>
           remdups_adj (map fst (lap_visits H m st)) = ring_at st (length (win_list m)) \<and>
           distinct (ring_at st (length (win_list m))) \<and>
           set (ring_at st (length (win_list m))) = {0..<length (win_list m)} \<and>
           (\<forall>w<length (win_list m). \<forall>b.
              if oldest_wrapped H m w \<and> b = msc_win_oldest_block H (win_list m ! w)
              then visits_to w b (lap_visits H m st) = [(w, b, 2), (w, b, 1)]
              else length (visits_to w b (lap_visits H m st)) \<le> 1) \<and>
           (\<forall>it. eof (snd (msc_iter_block_advance H m it)) =
                 (if fst (msc_iter_block_advance H m it) then eof it + 1 else eof it)) \<and>
           (\<forall>it. fst (msc_iter_win_advance H m it) =
                 (Some (msc_next_window m (win it)) = start_win it) \<and>
                 eof (snd (msc_iter_win_advance H m it)) =
                 (if Some (msc_next_window m (win it)) = start_win it then eof it + 1 else eof it))"
proof -
  let ?n = "length (win_list m)"
  from oldest_window_range [OF assms(1), of H] obtain st
    where st: "msc_oldest_window H m = Some st" "st < ?n"
    by blast
  let ?i = "msc_iter_init\<lparr>start_win := Some st\<rparr>"
  let ?it0 = "iter_enter H m ?i st"
  have n: "0 < ?n" using assms(1) by simp
  have ring: "distinct (ring_at st ?n)" "set (ring_at st ?n) = {0..<?n}"
    using ring_at_perm [OF n, of st] by simp_all
  have oks: "\<forall>w \<in> set (ring_at st ?n). win_ok (win_list m ! w)"
    using assms(2) ring(2) by (simp add: list_all_length)
  have start: "msc_iter_win_start H m msc_iter_init = (None, ?it0)"
    using st(1) by (rule win_start_enter)
  have f0: "win ?it0 = st" "block_it ?it0 = int (msc_win_oldest_block H (win_list m ! st))"
    "eof ?it0 = 0"
    by (simp_all add: iter_enter_fields) (simp add: msc_iter_init_def)
  have "\<exists>r. eof r = eof ?i + 1 \<and> start_win r = Some st \<and> win r = st \<and>
           (\<forall>k. iter_lap (k + length (concat (map (win_visits H m) (drop 0 (ring_at st ?n)))))
                  H m (iter_enter H m ?i (ring_at st ?n ! 0)) =
                Some (concat (map (win_visits H m) (drop 0 (ring_at st ?n))), r))"
    using assms(2) st(2) n by (intro lap_ring) simp_all
  then obtain r where r: "eof r = 1" "win r = st"
    and lap: "\<And>k. iter_lap (k + length (lap_visits H m st)) H m ?it0 = Some (lap_visits H m st, r)"
    using ring_at_0 [OF st(2)] by (auto simp: lap_visits_def msc_iter_init_def)
  have again: "msc_buffer_iterate fuel H m fn r sz d = Some (0, r, d)" for fuel sz d
    and fn :: "'d \<Rightarrow> msc_src \<Rightarrow> nat \<Rightarrow> nat \<times> 'd"
    using r(1) by (intro iterate_after_eof) simp
  have wins: "remdups_adj (map fst (lap_visits H m st)) = ring_at st ?n"
    unfolding lap_visits_def using ring(1) oks by (rule lap_windows)
  have blocks: "if oldest_wrapped H m w \<and> b = msc_win_oldest_block H (win_list m ! w)
              then visits_to w b (lap_visits H m st) = [(w, b, 2), (w, b, 1)]
              else length (visits_to w b (lap_visits H m st)) \<le> 1" if w: "w < ?n" for w b
  proof -
    have mem: "w \<in> set (ring_at st ?n)" using w ring(2) by simp
    have ok: "win_ok (win_list m ! w)" using oks mem by blast
    have v: "visits_to w b (lap_visits H m st) = visits_to w b (win_visits H m w)"
      unfolding lap_visits_def using ring(1) mem by (rule visits_concat)
    show ?thesis
    proof (cases "oldest_wrapped H m w \<and> b = msc_win_oldest_block H (win_list m ! w)")
      case True
      then show ?thesis
        unfolding v using visits_start_block [OF ok, of H b] by simp
    next
      case False
      have "length (visits_to w b (win_visits H m w)) \<le> 1"
        using ok False by (rule visits_other_block)
      then show ?thesis
        unfolding v using False by (simp only: if_False)
    qed
  qed
  show ?thesis
    using st start f0 lap r again wins ring blocks block_advance_eof [of H m]
      win_advance_eof [of H m] win_advance_fields(1) [of H m]
    by (intro exI [of _ st] exI [of _ ?it0] exI [of _ r]) (intro conjI allI impI; assumption?)
qed

text \<open>The lap on the example with two windows.\<close>

lemma ex_lap_wins:
  "win_list ex_lap =
     [\<lparr>pgoff = 0, nr_blocks = 3,
        block = [ex_block 0x1000 2 1024, ex_block 0x2000 2 512, ex_block 0x3000 0 1024]\<rparr>,
      \<lparr>pgoff = 3, nr_blocks = 2, block = [ex_block 0x4000 0 1024, ex_block 0x5000 0 100]\<rparr>]"
  by (simp add: ex_lap_def)

lemma ex_block_flags:
  "msc_block_wrapped ex_hw (bdesc (ex_block a t d)) = odd (t div 2)"
  "msc_block_last_written ex_hw (bdesc (ex_block a t d)) =
     (odd (t div 8) \<or> (if d = 0 then 0 else d * 4 - 64) \<noteq> 4032)"
  by (simp_all add: ex_hw_def ex_block_def)

lemma ex_lap_scan:
  "last_written_scan ex_hw (win_list ex_lap ! 0) 0 = 1"
proof -
  have "last_written_scan ex_hw (win_list ex_lap ! 0) (0 + 1) = 1"
    by (subst last_written_scan.simps) (simp add: ex_lap_wins ex_block_flags)
  then show ?thesis
    by (subst last_written_scan.simps) (simp add: ex_lap_wins ex_block_flags)
qed

lemma ex_lap_oldest_block:
  "msc_win_oldest_block ex_hw (win_list ex_lap ! 0) = 1"
  "msc_win_oldest_block ex_hw (win_list ex_lap ! 1) = 0"
  "msc_win_oldest_block ex_hw (win_list ex_lap ! Suc 0) = 0"
  using ex_lap_scan by (simp_all add: msc_win_oldest_block_def) (simp_all add: ex_lap_wins ex_block_flags)

lemma ex_lap_wrapped:
  "oldest_wrapped ex_hw ex_lap 0" "\<not> oldest_wrapped ex_hw ex_lap 1"
  "\<not> oldest_wrapped ex_hw ex_lap (Suc 0)"
  by (simp_all add: oldest_wrapped_def ex_lap_oldest_block) (simp_all add: ex_lap_wins ex_block_flags)

lemma ex_rings:
  "ring_at 1 2 = [1, 0]" "ring_at 0 2 = [0, 1]" "ring_from 1 3 = [2, 0, 1]"
  "ring_at (Suc 0) 2 = [1, 0]" "ring_from (Suc 0) 3 = [2, 0, 1]"
  by (simp_all add: ring_at_def ring_from_def upt_rec)

lemma ex_lap_win_visits:
  "win_visits ex_hw ex_lap 0 = [(0, 1, 2), (0, 2, 1), (0, 0, 1), (0, 1, 1)]"
  "win_visits ex_hw ex_lap 1 = [(1, 0, 0), (1, 1, 0)]"
  by (simp_all add: win_visits_def Let_def ex_lap_wrapped ex_lap_oldest_block)
    (simp_all add: ex_lap_wins ex_rings ex_block_flags)

lemma ex_lap_visits:
  "lap_visits ex_hw ex_lap 1 = [(1, 0, 0), (1, 1, 0), (0, 1, 2), (0, 2, 1), (0, 0, 1), (0, 1, 1)]"
proof -
  have len: "length (win_list ex_lap) = 2" by (simp add: ex_lap_wins)
  have "lap_visits ex_hw ex_lap 1 = win_visits ex_hw ex_lap 1 @ win_visits ex_hw ex_lap 0"
    unfolding lap_visits_def len ex_rings(1) by simp
  then show ?thesis
    unfolding ex_lap_win_visits by simp
qed

lemma ex_lap_oldest: "msc_oldest_window ex_hw ex_lap = Some 1"
  by (simp add: msc_oldest_window_def ex_lap_def ex_defs ex_hw_def ex_block_def
      msc_block_is_empty_def zero_bdesc_def next_write_addr_def)

theorem iterator_one_lap_witness:
  "win_list ex_lap \<noteq> [] \<and> list_all win_ok (win_list ex_lap) \<and>
   map_option fst (iter_lap 6 ex_hw ex_lap (snd (msc_iter_win_start ex_hw ex_lap msc_iter_init))) =
     Some [(1, 0, 0), (1, 1, 0), (0, 1, 2), (0, 2, 1), (0, 0, 1), (0, 1, 1)] \<and>
   map_option (\<lambda>p. eof (snd p))
     (iter_lap 6 ex_hw ex_lap (snd (msc_iter_win_start ex_hw ex_lap msc_iter_init))) = Some 1 \<and>
   visits_to 0 1 (lap_visits ex_hw ex_lap 1) = [(0, 1, 2), (0, 1, 1)]"
proof -
  have ne: "win_list ex_lap \<noteq> []"
    by (simp add: ex_lap_wins)
  have ok: "list_all win_ok (win_list ex_lap)"
    by (simp add: ex_lap_wins win_ok_def)
  from iterator_one_lap [OF ne ok, of ex_hw] obtain st it0 r
    where st: "msc_oldest_window ex_hw ex_lap = Some st"
      and it0: "msc_iter_win_start ex_hw ex_lap msc_iter_init = (None, it0)"
      and lap: "\<And>k. iter_lap (k + length (lap_visits ex_hw ex_lap st)) ex_hw ex_lap it0 =
                 Some (lap_visits ex_hw ex_lap st, r)"
      and r: "eof r = 1"
      and blocks: "\<And>w b. w < length (win_list ex_lap) \<Longrightarrow>
              if oldest_wrapped ex_hw ex_lap w \<and> b = msc_win_oldest_block ex_hw (win_list ex_lap ! w)
              then visits_to w b (lap_visits ex_hw ex_lap st) = [(w, b, 2), (w, b, 1)]
              else length (visits_to w b (lap_visits ex_hw ex_lap st)) \<le> 1"
    by blast
  have s1: "st = 1" using st ex_lap_oldest by simp
  have n6: "0 + length (lap_visits ex_hw ex_lap 1) = 6"
    unfolding ex_lap_visits by simp
  have "iter_lap (0 + length (lap_visits ex_hw ex_lap 1)) ex_hw ex_lap it0 =
        Some (lap_visits ex_hw ex_lap 1, r)"
    using lap [of 0] unfolding s1 .
  then have "iter_lap 6 ex_hw ex_lap it0 = Some (lap_visits ex_hw ex_lap 1, r)"
    unfolding n6 .
  then have l6: "iter_lap 6 ex_hw ex_lap it0 =
                 Some ([(1, 0, 0), (1, 1, 0), (0, 1, 2), (0, 2, 1), (0, 0, 1), (0, 1, 1)], r)"
    unfolding ex_lap_visits .
  have sn: "snd (msc_iter_win_start ex_hw ex_lap msc_iter_init) = it0"
    using it0 by simp
  have l: "map_option fst (iter_lap 6 ex_hw ex_lap (snd (msc_iter_win_start ex_hw ex_lap msc_iter_init))) =
     Some [(1, 0, 0), (1, 1, 0), (0, 1, 2), (0, 2, 1), (0, 0, 1), (0, 1, 1)]"
    unfolding sn l6 by simp
  have e: "map_option (\<lambda>p. eof (snd p))
     (iter_lap 6 ex_hw ex_lap (snd (msc_iter_win_start ex_hw ex_lap msc_iter_init))) = Some 1"
    unfolding sn l6 using r by simp
  have c: "oldest_wrapped ex_hw ex_lap 0 \<and> 1 = msc_win_oldest_block ex_hw (win_list ex_lap ! 0)"
    by (simp add: ex_lap_wrapped ex_lap_oldest_block)
  have "(0::nat) < length (win_list ex_lap)" by (simp add: ex_lap_wins)
  from blocks [OF this, of 1] c
  have "visits_to 0 1 (lap_visits ex_hw ex_lap st) = [(0, 1, 2), (0, 1, 1)]"
    by (simp only: if_True)
  then have b: "visits_to 0 1 (lap_visits ex_hw ex_lap 1) = [(0, 1, 2), (0, 1, 1)]"
    unfolding s1 .
  from ne ok l e b show ?thesis by blast
qed

end
